theory Spec2Isabelle
  imports Complex_Main
begin

section \<open>Block Blast: the game-state engine of \<^verbatim>\<open>game.js\<close>\<close>

text \<open>
  The engine keeps one global \<^verbatim>\<open>state\<close> object; every function below takes the
  part of it that the JavaScript reads and returns the part it writes. A JavaScript
  exception is the value \<open>Inl TypeError\<close>. Numbers that the game only ever uses as
  integers (score, streak, combo, indices) are \<open>int\<close> or \<open>nat\<close>; the numbers that
  \<^verbatim>\<open>randomShape\<close> computes from \<^verbatim>\<open>Math.random()\<close> and from \<^verbatim>\<open>0.08\<close> are doubles, modelled
  as the reals they denote with the rounding of every operation written out.
  Rendering, the star-blast effects and the high-score storage do not write the
  session state and are left out.
\<close>

subsection \<open>Values, grid, shapes\<close>

datatype error = TypeError

text \<open>
  The values that occur in a grid cell or as a colour: \<^verbatim>\<open>undefined\<close> (a property that
  is not there), \<^verbatim>\<open>null\<close> (the colour \<^verbatim>\<open>canPlaceAny\<close> passes), the number \<^verbatim>\<open>0\<close> and a
  string.
\<close>

datatype cell = Undefined | Null | Zero | Tag string

text \<open>JavaScript truthiness, as used by \<^verbatim>\<open>if (x)\<close>, \<^verbatim>\<open>!x\<close> and \<^verbatim>\<open>&&\<close>.\<close>

fun truthy :: "cell \<Rightarrow> bool" where
  "truthy Undefined = False"
| "truthy Null = False"
| "truthy Zero = False"
| "truthy (Tag s) = (s \<noteq> [])"

definition ROWS :: nat where "ROWS = 8"
definition COLS :: nat where "COLS = 8"

text \<open>
  A row of the grid is a JavaScript array of length \<open>COLS\<close>. It is modelled as the map
  from every integer property name to the value read there, \<open>Undefined\<close> where the
  array has no such property: \<^verbatim>\<open>initGrid\<close> creates each row with length \<open>COLS\<close>, and
  the only writes (\<^verbatim>\<open>placeBlock\<close> after \<^verbatim>\<open>canPlace\<close>, \<^verbatim>\<open>clearLines\<close>) are below index
  \<open>COLS\<close>, so the length never changes; a write at a negative index adds a property
  and leaves the elements alone. The grid itself is the list of its rows.
\<close>

type_synonym row = "int \<Rightarrow> cell"
type_synonym grid = "row list"
type_synonym shape = "nat list list"

record block =
  shape :: shape
  color :: cell

record state =
  grid :: grid
  currentBlocks :: "block list"
  score :: int
  combo :: int
  streak :: int
  lastMoveCleared :: bool
  gameOver :: bool
  selectedBlockIndex :: int
  draggingBlockIndex :: int

definition SHAPES :: "shape list" where
  "SHAPES =
   [ [[1]],
     [[1, 1]],
     [[1], [1]],
     [[1, 1], [1, 1]],
     [[1, 1, 1]],
     [[1], [1], [1]],
     [[1, 1, 1, 1]],
     [[1], [1], [1], [1]],
     [[1, 1, 1], [1, 0, 0]],
     [[1, 1, 1], [0, 0, 1]],
     [[1, 0, 0], [1, 1, 1]],
     [[0, 0, 1], [1, 1, 1]],
     [[1, 1], [1, 0]],
     [[1, 1], [0, 1]],
     [[0, 1], [1, 1]],
     [[1, 0], [1, 1]],
     [[1, 1, 1], [0, 1, 0]],
     [[0, 1, 0], [1, 1, 1]],
     [[1, 0], [1, 1], [1, 0]],
     [[0, 1], [1, 1], [0, 1]],
     [[1, 1, 1], [1, 1, 1]],
     [[1, 1], [1, 1], [1, 1]],
     [[1, 1, 1], [1, 1, 1], [1, 1, 1]] ]"

definition LARGE_SHAPE_INDICES :: "nat list" where
  "LARGE_SHAPE_INDICES = [6, 7, 8, 9, 10, 11, 16, 17, 18, 19, 20, 21, 22]"

definition COLORS :: "string list" where
  "COLORS = [''c1'', ''c2'', ''c3'', ''c4'', ''c5'']"

text \<open>The number of occupied cells of a shape.\<close>

definition cellCount :: "shape \<Rightarrow> nat" where
  "cellCount sh = length (filter (\<lambda>x. x \<noteq> 0) (concat sh))"

text \<open>\<^verbatim>\<open>xs[i]\<close> for an array \<open>xs\<close>: \<^verbatim>\<open>undefined\<close> outside the array.\<close>

definition js_nth :: "'a list \<Rightarrow> int \<Rightarrow> 'a option" where
  "js_nth xs i = (if 0 \<le> i \<and> i < int (length xs) then Some (xs ! nat i) else None)"

text \<open>
  \<^verbatim>\<open>shape[r][c]\<close> as a condition, for \<open>r\<close> below the height of the shape (the loops
  never go further): a column beyond the end of a row reads \<^verbatim>\<open>undefined\<close>.
\<close>

definition shapeCell :: "shape \<Rightarrow> nat \<Rightarrow> nat \<Rightarrow> bool" where
  "shapeCell sh r c = (r < length sh \<and> c < length (sh ! r) \<and> sh ! r ! c \<noteq> 0)"

text \<open>
  \<^verbatim>\<open>state.grid[i][j]\<close>: \<^verbatim>\<open>state.grid[i]\<close> is \<^verbatim>\<open>undefined\<close> outside the list of rows,
  and indexing \<^verbatim>\<open>undefined\<close> throws.
\<close>

definition gridRead :: "grid \<Rightarrow> int \<Rightarrow> int \<Rightarrow> error + cell" where
  "gridRead g i j =
     (if 0 \<le> i \<and> i < int (length g) then Inr ((g ! nat i) j) else Inl TypeError)"

definition gridWrite :: "grid \<Rightarrow> int \<Rightarrow> int \<Rightarrow> cell \<Rightarrow> error + grid" where
  "gridWrite g i j v =
     (if 0 \<le> i \<and> i < int (length g)
      then Inr (g[nat i := (g ! nat i)(j := v)]) else Inl TypeError)"

definition initGrid :: grid where
  "initGrid = replicate ROWS (\<lambda>j. if 0 \<le> j \<and> j < int COLS then Zero else Undefined)"

subsection \<open>Double-precision arithmetic\<close>

text \<open>
  A JavaScript number is an IEEE 754 binary64 value, and \<^verbatim>\<open>/\<close>, \<^verbatim>\<open>*\<close> and a decimal
  literal give the double nearest to the exact result, a tie going to the even
  significand. \<open>fl\<close> is this rounding on the reals of magnitude below \<open>2 ^ 1024\<close>
  (the program's numbers are far below): \<open>expo\<close> finds the binary exponent of a
  positive real by halving or doubling it into \<open>[1, 2)\<close>, with more steps allowed
  than any double needs; \<open>quantum\<close> is the exponent of the spacing of the doubles
  around it, 52 binary places below the leading one and never below that of the
  subnormal numbers; \<open>rne\<close> rounds to the nearest integer, ties to even.
\<close>

fun expo :: "nat \<Rightarrow> real \<Rightarrow> int" where
  "expo 0 x = 0"
| "expo (Suc n) x =
     (if 2 \<le> x then expo n (x / 2) + 1 else if x < 1 then expo n (2 * x) - 1 else 0)"

definition rne :: "real \<Rightarrow> int" where
  "rne m =
     (let f = \<lfloor>m\<rfloor>; d = m - of_int f
      in if d < 1 / 2 then f else if 1 / 2 < d then f + 1 else if even f then f else f + 1)"

definition quantum :: "real \<Rightarrow> int" where
  "quantum a = max (expo 1100 a) (- 1022) - 52"

definition fl :: "real \<Rightarrow> real" where
  "fl x =
     (if x = 0 then 0
      else sgn x * of_int (rne (\<bar>x\<bar> / 2 powi quantum \<bar>x\<bar>)) * 2 powi quantum \<bar>x\<bar>)"

subsection \<open>Random blocks\<close>

text \<open>
  The random source is the sequence of the results of the calls of \<^verbatim>\<open>Math.random()\<close>
  still to come; a call takes the first one. \<^verbatim>\<open>Math.random()\<close> returns a double that
  is at least 0 and less than 1, so at most \<open>1 - 1 / 2 ^ 53\<close>, the largest double
  below 1.
\<close>

type_synonym rng = "nat \<Rightarrow> real"

definition Math_random :: "rng \<Rightarrow> real \<times> rng" where
  "Math_random g = (g 0, \<lambda>n. g (Suc n))"

definition validRng :: "rng \<Rightarrow> bool" where
  "validRng g = (\<forall>n. 0 \<le> g n \<and> g n \<le> 1 - 1 / 2 ^ 53)"

text \<open>\<^verbatim>\<open>Math.floor(score / 250)\<close> and \<^verbatim>\<open>level * 0.08\<close>, in doubles.\<close>

definition level :: "int \<Rightarrow> int" where
  "level sc = \<lfloor>fl (of_int sc / 250)\<rfloor>"

definition largeChance :: "int \<Rightarrow> real" where
  "largeChance sc = fl (of_int (level sc) * fl (8 / 100))"

text \<open>
  \<^verbatim>\<open>largeChance > 0 && Math.random() < largeChance\<close>: the draw is made only when the
  chance is positive.
\<close>

definition useLargePool :: "int \<Rightarrow> rng \<Rightarrow> bool \<times> rng" where
  "useLargePool sc g =
     (if largeChance sc > 0
      then (case Math_random g of (u, g') \<Rightarrow> (u < largeChance sc, g'))
      else (False, g))"

definition randomShape :: "int \<Rightarrow> rng \<Rightarrow> error + (block \<times> rng)" where
  "randomShape sc g =
     (case useLargePool sc g of (large, g1) \<Rightarrow>
       (let pool = (if large then LARGE_SHAPE_INDICES else [0..<length SHAPES]) in
         (case Math_random g1 of (u2, g2) \<Rightarrow>
           (case js_nth pool \<lfloor>fl (u2 * of_nat (length pool))\<rfloor> of
              None \<Rightarrow> Inl TypeError
            | Some idx \<Rightarrow>
               (case js_nth SHAPES (int idx) of
                  None \<Rightarrow> Inl TypeError
                | Some sh \<Rightarrow>
                   (case Math_random g2 of (u3, g3) \<Rightarrow>
                     (let col = (case js_nth COLORS \<lfloor>fl (u3 * of_nat (length COLORS))\<rfloor> of
                                  None \<Rightarrow> Undefined | Some c \<Rightarrow> Tag c)
                      in Inr (\<lparr>shape = sh, color = col\<rparr>, g3))))))))"

definition getThreeBlocks :: "int \<Rightarrow> rng \<Rightarrow> error + (block list \<times> rng)" where
  "getThreeBlocks sc g =
     (case randomShape sc g of
        Inl e \<Rightarrow> Inl e
      | Inr (b1, g1) \<Rightarrow>
         (case randomShape sc g1 of
            Inl e \<Rightarrow> Inl e
          | Inr (b2, g2) \<Rightarrow>
             (case randomShape sc g2 of
                Inl e \<Rightarrow> Inl e
              | Inr (b3, g3) \<Rightarrow> Inr ([b1, b2, b3], g3))))"

subsection \<open>Placement\<close>

text \<open>
  The two nested \<^verbatim>\<open>for\<close> loops over \<open>r < H\<close> and \<open>c < W\<close> visit the pairs of
  \<open>List.product [0..<H] [0..<W]\<close> in this order.
\<close>

fun canPlaceScan :: "grid \<Rightarrow> shape \<Rightarrow> int \<Rightarrow> int \<Rightarrow> (nat \<times> nat) list \<Rightarrow> error + bool" where
  "canPlaceScan g sh row col [] = Inr True"
| "canPlaceScan g sh row col ((r, c) # rest) =
     (if shapeCell sh r c
      then (case gridRead g (row + int r) (col + int c) of
              Inl e \<Rightarrow> Inl e
            | Inr v \<Rightarrow> if truthy v then Inr False else canPlaceScan g sh row col rest)
      else canPlaceScan g sh row col rest)"

text \<open>\<^verbatim>\<open>shape[0].length\<close> throws on a shape without rows.\<close>

definition canPlace :: "grid \<Rightarrow> shape \<Rightarrow> cell \<Rightarrow> int \<Rightarrow> int \<Rightarrow> error + bool" where
  "canPlace g sh colr row col =
     (case sh of
        [] \<Rightarrow> Inl TypeError
      | row0 # _ \<Rightarrow>
         if row + int (length sh) > int ROWS \<or> col + int (length row0) > int COLS
         then Inr False
         else canPlaceScan g sh row col (List.product [0..<length sh] [0..<length row0]))"

fun placeBlockLoop :: "grid \<Rightarrow> shape \<Rightarrow> cell \<Rightarrow> int \<Rightarrow> int \<Rightarrow> (nat \<times> nat) list \<Rightarrow> error + grid" where
  "placeBlockLoop g sh colr row col [] = Inr g"
| "placeBlockLoop g sh colr row col ((r, c) # rest) =
     (if shapeCell sh r c
      then (case gridWrite g (row + int r) (col + int c) colr of
              Inl e \<Rightarrow> Inl e
            | Inr g' \<Rightarrow> placeBlockLoop g' sh colr row col rest)
      else placeBlockLoop g sh colr row col rest)"

definition placeBlock :: "grid \<Rightarrow> shape \<Rightarrow> cell \<Rightarrow> int \<Rightarrow> int \<Rightarrow> error + grid" where
  "placeBlock g sh colr row col =
     (case sh of
        [] \<Rightarrow> Inl TypeError
      | row0 # _ \<Rightarrow>
         placeBlockLoop g sh colr row col (List.product [0..<length sh] [0..<length row0]))"

subsection \<open>Clearing lines and scoring\<close>

record cleared =
  count :: nat
  rows :: "nat list"
  cols :: "nat list"

text \<open>\<^verbatim>\<open>state.grid[r].every(cell => cell !== 0)\<close> on a row of length \<open>COLS\<close>.\<close>

definition rowFull :: "grid \<Rightarrow> nat \<Rightarrow> bool" where
  "rowFull g r = list_all (\<lambda>c. (g ! r) (int c) \<noteq> Zero) [0..<COLS]"

text \<open>
  The inner loop of the column scan: \<open>full\<close> stays true unless some
  \<^verbatim>\<open>state.grid[r][c]\<close> is falsy (the \<^verbatim>\<open>break\<close> only ends the scan early).
\<close>

definition colFull :: "grid \<Rightarrow> nat \<Rightarrow> bool" where
  "colFull g c = list_all (\<lambda>r. truthy ((g ! r) (int c))) [0..<ROWS]"

text \<open>
  \<^verbatim>\<open>state.grid[r][c] = 0\<close> inside the clearing loops, where \<open>r\<close> is a row of the grid.
\<close>

definition zeroCell :: "nat \<Rightarrow> nat \<Rightarrow> grid \<Rightarrow> grid" where
  "zeroCell r c g = g[r := (g ! r)(int c := Zero)]"

definition clearRow :: "nat \<Rightarrow> grid \<Rightarrow> grid" where
  "clearRow r g = fold (\<lambda>c. zeroCell r c) [0..<COLS] g"

definition clearCol :: "nat \<Rightarrow> grid \<Rightarrow> grid" where
  "clearCol c g = fold (\<lambda>r. zeroCell r c) [0..<ROWS] g"

text \<open>
  The row scan reads \<^verbatim>\<open>state.grid[r]\<close> for every \<open>r < ROWS\<close> before anything is
  written, so a grid with fewer rows throws there.
\<close>

definition clearLines :: "state \<Rightarrow> error + (cleared \<times> state)" where
  "clearLines s =
     (if length (grid s) < ROWS then Inl TypeError
      else
        let rowsToClear = filter (rowFull (grid s)) [0..<ROWS];
            colsToClear = filter (colFull (grid s)) [0..<COLS];
            n = length rowsToClear + length colsToClear
        in if n = 0 then Inr (\<lparr>count = 0, rows = [], cols = []\<rparr>, s)
           else
             let g1 = fold clearRow rowsToClear (grid s);
                 g2 = fold clearCol colsToClear g1;
                 points = int n * 10 + 2 ^ n
                          + (if streak s > 0 then streak s * 20 else 0)
             in Inr (\<lparr>count = n, rows = rowsToClear, cols = colsToClear\<rparr>,
                     s\<lparr>grid := g2, score := score s + points, combo := int n,
                       lastMoveCleared := True, streak := streak s + 1\<rparr>))"

definition noClearThisMove :: "state \<Rightarrow> state" where
  "noClearThisMove s = s\<lparr>lastMoveCleared := False, streak := 0, combo := 0\<rparr>"

subsection \<open>Game over and the move\<close>

fun canPlaceAnyScan :: "grid \<Rightarrow> shape \<Rightarrow> (int \<times> int) list \<Rightarrow> error + bool" where
  "canPlaceAnyScan g sh [] = Inr False"
| "canPlaceAnyScan g sh ((r, c) # rest) =
     (case canPlace g sh Null r c of
        Inl e \<Rightarrow> Inl e
      | Inr ok \<Rightarrow> if ok then Inr True else canPlaceAnyScan g sh rest)"

text \<open>
  The anchors \<open>r = 0 .. ROWS - H\<close>, \<open>c = 0 .. COLS - W\<close> in the order of the two loops;
  none when the shape is higher or wider than the grid.
\<close>

definition anchors :: "shape \<Rightarrow> (int \<times> int) list" where
  "anchors sh = List.product [0 .. int ROWS - int (length sh)]
                             [0 .. int COLS - int (length (hd sh))]"

fun canPlaceAny :: "grid \<Rightarrow> block list \<Rightarrow> error + bool" where
  "canPlaceAny g [] = Inr False"
| "canPlaceAny g (b # bs) =
     (case shape b of
        [] \<Rightarrow> Inl TypeError
      | _ # _ \<Rightarrow>
         (case canPlaceAnyScan g (shape b) (anchors (shape b)) of
            Inl e \<Rightarrow> Inl e
          | Inr ok \<Rightarrow> if ok then Inr True else canPlaceAny g bs))"

text \<open>
  \<^verbatim>\<open>while (state.currentBlocks.length < 3) state.currentBlocks.push(randomShape())\<close>
\<close>

function refill :: "int \<Rightarrow> rng \<Rightarrow> block list \<Rightarrow> error + block list" where
  "refill sc g bs =
     (if length bs < 3
      then (case randomShape sc g of
              Inl e \<Rightarrow> Inl e
            | Inr (b, g') \<Rightarrow> refill sc g' (bs @ [b]))
      else Inr bs)"
  by pat_completeness auto
termination
  by (relation "measure (\<lambda>(sc, g, bs). 3 - length bs)") auto

declare refill.simps [simp del]

text \<open>\<^verbatim>\<open>xs.splice(i, 1)\<close> for an index inside the array.\<close>

definition splice1 :: "'a list \<Rightarrow> nat \<Rightarrow> 'a list" where
  "splice1 xs i = take i xs @ drop (Suc i) xs"

text \<open>
  \<^verbatim>\<open>tryPlaceBlock\<close> returns \<^verbatim>\<open>false\<close> (lines 173 and 175) or, after the move, \<^verbatim>\<open>true\<close>.
  The calls that follow the game-over check (\<^verbatim>\<open>showGameOver\<close>, the star-blast effects,
  \<^verbatim>\<open>render\<close>, \<^verbatim>\<open>updateScores\<close>) draw the page and do not write the session state; they are
  left out. An exception ends the call with \<open>Inl\<close>; in a well-formed state only
  \<^verbatim>\<open>canPlace\<close> can throw, before anything is written.
\<close>

definition tryPlaceBlock :: "rng \<Rightarrow> state \<Rightarrow> int \<Rightarrow> int \<Rightarrow> int \<Rightarrow> error + (bool \<times> state)" where
  "tryPlaceBlock rnd s blockIndex row col =
     (if gameOver s \<or> blockIndex < 0 \<or> blockIndex \<ge> int (length (currentBlocks s))
      then Inr (False, s)
      else
        (let b = currentBlocks s ! nat blockIndex in
          (case canPlace (grid s) (shape b) (color b) row col of
             Inl e \<Rightarrow> Inl e
           | Inr ok \<Rightarrow>
              if \<not> ok then Inr (False, s)
              else
                (case placeBlock (grid s) (shape b) (color b) row col of
                   Inl e \<Rightarrow> Inl e
                 | Inr g1 \<Rightarrow>
                    (case clearLines (s\<lparr>grid := g1, score := score s + 5\<rparr>) of
                       Inl e \<Rightarrow> Inl e
                     | Inr (linesCleared, s2) \<Rightarrow>
                        (let s3 = (if count linesCleared = 0 then noClearThisMove s2 else s2) in
                          (case refill (score s3) rnd
                                  (splice1 (currentBlocks s3) (nat blockIndex)) of
                             Inl e \<Rightarrow> Inl e
                           | Inr bs \<Rightarrow>
                              (let s4 = s3\<lparr>currentBlocks := bs\<rparr> in
                                (case canPlaceAny (grid s4) (currentBlocks s4) of
                                   Inl e \<Rightarrow> Inl e
                                 | Inr any \<Rightarrow>
                                    Inr (True, if \<not> any then s4\<lparr>gameOver := True\<rparr>
                                               else s4))))))))))"

subsection \<open>Start and restart\<close>

text \<open>
  The script's last lines: \<^verbatim>\<open>initGrid()\<close>, then three blocks drawn at score 0.
\<close>

definition initState :: "rng \<Rightarrow> error + state" where
  "initState g =
     (case getThreeBlocks 0 g of
        Inl e \<Rightarrow> Inl e
      | Inr (bs, g') \<Rightarrow>
         Inr \<lparr>grid = initGrid, currentBlocks = bs, score = 0, combo = 0, streak = 0,
              lastMoveCleared = False, gameOver = False,
              selectedBlockIndex = - 1, draggingBlockIndex = - 1\<rparr>)"

text \<open>
  \<^verbatim>\<open>doRestart\<close> draws the three blocks before it resets the score, so they are drawn
  at the old score.
\<close>

definition doRestart :: "rng \<Rightarrow> state \<Rightarrow> error + state" where
  "doRestart g s =
     (case getThreeBlocks (score s) g of
        Inl e \<Rightarrow> Inl e
      | Inr (bs, g') \<Rightarrow>
         Inr (s\<lparr>grid := initGrid, currentBlocks := bs, score := 0, combo := 0, streak := 0,
                lastMoveCleared := False, gameOver := False,
                selectedBlockIndex := - 1, draggingBlockIndex := - 1\<rparr>))"

subsection \<open>Vocabulary of the properties\<close>

text \<open>The state after line 180: the reset of streak and combo when nothing was cleared.\<close>

definition afterClear :: "cleared \<Rightarrow> state \<Rightarrow> state" where
  "afterClear lc s2 = (if count lc = 0 then noClearThisMove s2 else s2)"

text \<open>\<open>H\<close> and \<open>W\<close> of \<^verbatim>\<open>canPlace\<close> and \<^verbatim>\<open>canPlaceAny\<close>.\<close>

definition height :: "shape \<Rightarrow> nat" where
  "height sh = length sh"

definition width :: "shape \<Rightarrow> nat" where
  "width sh = length (hd sh)"

text \<open>A cell of the grid is occupied when its value is truthy, as \<^verbatim>\<open>canPlace\<close> tests it.\<close>

definition occupied :: "grid \<Rightarrow> nat \<Rightarrow> nat \<Rightarrow> bool" where
  "occupied g r c = truthy ((g ! r) (int c))"

text \<open>
  A well-formed grid has \<open>ROWS\<close> rows, and each of its \<open>ROWS * COLS\<close> cells holds
  \<^verbatim>\<open>0\<close> or a truthy value (a colour).
\<close>

definition gridOk :: "grid \<Rightarrow> bool" where
  "gridOk g =
     (length g = ROWS \<and>
      list_all (\<lambda>r. list_all (\<lambda>c. (g ! r) (int c) = Zero \<or> truthy ((g ! r) (int c))) [0..<COLS])
        [0..<ROWS])"

definition blockOk :: "block \<Rightarrow> bool" where
  "blockOk b = (shape b \<in> set SHAPES \<and> color b \<in> Tag ` set COLORS)"

definition stateOk :: "state \<Rightarrow> bool" where
  "stateOk s =
     (gridOk (grid s) \<and> length (currentBlocks s) = 3 \<and> list_all blockOk (currentBlocks s))"

text \<open>
  The states of a run of the page: the script's start, restarts, calls of
  \<^verbatim>\<open>tryPlaceBlock\<close> with any arguments, and the two index fields that the listeners set.
  \<^verbatim>\<open>Math.random()\<close> returns doubles in \<open>[0, 1)\<close>.
\<close>

inductive reachable :: "state \<Rightarrow> bool" where
  start: "validRng g \<Longrightarrow> initState g = Inr s \<Longrightarrow> reachable s"
| restart: "reachable s \<Longrightarrow> validRng g \<Longrightarrow> doRestart g s = Inr s' \<Longrightarrow> reachable s'"
| move: "reachable s \<Longrightarrow> validRng g \<Longrightarrow> tryPlaceBlock g s i row col = Inr (ok, s')
         \<Longrightarrow> reachable s'"
| select: "reachable s \<Longrightarrow> reachable (s\<lparr>selectedBlockIndex := k\<rparr>)"
| drag: "reachable s \<Longrightarrow> reachable (s\<lparr>draggingBlockIndex := k\<rparr>)"

subsection \<open>Example inputs\<close>

text \<open>
  Random sources (every draw 0; every draw 0.96875; the draws 0, 0.125, ..., 0.625
  in turn; every draw 0.6956521739130435, the double nearest to 16/23), the blocks
  they produce below score 250, and some states: \<open>stateA\<close> and \<open>stateM\<close> are starts of
  a game, \<open>stateB\<close> has row 0 filled except for its last cell, \<open>crossGrid\<close> has row 0
  and column 0 filled, and \<open>dotGrid\<close> has four cells filled so that no 3x3 block fits.
\<close>

definition rngZero :: rng where "rngZero = (\<lambda>n. 0)"
definition rngHigh :: rng where "rngHigh = (\<lambda>n. 31 / 32)"
definition rngSeq :: rng where "rngSeq = (\<lambda>n. real (n mod 6) / 8)"

definition unitBlock :: block where
  "unitBlock = \<lparr>shape = [[1]], color = Tag ''c1''\<rparr>"

definition bigBlock :: block where
  "bigBlock = \<lparr>shape = [[1, 1, 1], [1, 1, 1], [1, 1, 1]], color = Tag ''c5''\<rparr>"

definition barBlock :: block where
  "barBlock = \<lparr>shape = [[1], [1], [1]], color = Tag ''c2''\<rparr>"

definition hookBlock :: block where
  "hookBlock = \<lparr>shape = [[0, 0, 1], [1, 1, 1]], color = Tag ''c4''\<rparr>"

definition stateA :: state where
  "stateA = \<lparr>grid = initGrid, currentBlocks = [unitBlock, unitBlock, unitBlock],
             score = 0, combo = 0, streak = 0, lastMoveCleared = False, gameOver = False,
             selectedBlockIndex = - 1, draggingBlockIndex = - 1\<rparr>"

definition stateM :: state where
  "stateM = \<lparr>grid = initGrid, currentBlocks = [unitBlock, barBlock, hookBlock],
             score = 0, combo = 0, streak = 0, lastMoveCleared = False, gameOver = False,
             selectedBlockIndex = - 1, draggingBlockIndex = - 1\<rparr>"

definition almostRow :: row where
  "almostRow = (\<lambda>j. if 0 \<le> j \<and> j < 7 then Tag ''c1'' else if j = 7 then Zero else Undefined)"

definition stateB :: state where
  "stateB = \<lparr>grid = almostRow # tl initGrid,
             currentBlocks = [unitBlock, unitBlock, unitBlock],
             score = 100, combo = 1, streak = 2, lastMoveCleared = True, gameOver = False,
             selectedBlockIndex = - 1, draggingBlockIndex = - 1\<rparr>"

definition crossGrid :: grid where
  "crossGrid = map (\<lambda>r. (\<lambda>j. if 0 \<le> j \<and> j < 8 then (if r = 0 \<or> j = 0 then Tag ''c2'' else Zero)
                              else Undefined)) [0..<8]"

definition dotGrid :: grid where
  "dotGrid = map (\<lambda>r. (\<lambda>j. if 0 \<le> j \<and> j < 8
                             then (if r mod 3 = 2 \<and> j mod 3 = 2 then Tag ''c3'' else Zero)
                             else Undefined)) [0..<8]"

definition stateG :: state where
  "stateG = \<lparr>grid = dotGrid, currentBlocks = [unitBlock, bigBlock, bigBlock],
             score = 40, combo = 0, streak = 0, lastMoveCleared = False, gameOver = False,
             selectedBlockIndex = - 1, draggingBlockIndex = - 1\<rparr>"

section \<open>Lemmas\<close>

subsection \<open>canPlace and canPlaceAny\<close>

text \<open>What the scan of \<^verbatim>\<open>canPlace\<close> returns when every row it reads exists.\<close>

lemma canPlaceScan_char:
  assumes "\<forall>(r, c) \<in> set ps. 0 \<le> row + int r \<and> row + int r < int (length g)"
  shows "canPlaceScan g sh row col ps =
    Inr (\<not> (\<exists>(r, c) \<in> set ps. shapeCell sh r c \<and> truthy ((g ! nat (row + int r)) (col + int c))))"
  using assms
  by (induction ps) (auto simp: gridRead_def)

lemma canPlace_char:
  assumes "sh \<noteq> []" and "0 \<le> row" and "ROWS \<le> length g"
  shows "canPlace g sh colr row col =
    Inr (row + int (length sh) \<le> int ROWS \<and> col + int (length (hd sh)) \<le> int COLS \<and>
         \<not> (\<exists>r < length sh. \<exists>c < length (hd sh).
              shapeCell sh r c \<and> truthy ((g ! nat (row + int r)) (col + int c))))"
proof -
  define H where "H = length sh"
  define W where "W = length (hd sh)"
  have unfold: "canPlace g sh colr row col =
      (if row + int H > int ROWS \<or> col + int W > int COLS then Inr False
       else canPlaceScan g sh row col (List.product [0..<H] [0..<W]))"
    using assms(1) by (cases sh) (simp_all add: canPlace_def H_def W_def)
  show ?thesis
  proof (cases "row + int H > int ROWS \<or> col + int W > int COLS")
    case True
    then show ?thesis unfolding unfold H_def [symmetric] W_def [symmetric] by auto
  next
    case False
    have "\<forall>(r, c) \<in> set (List.product [0..<H] [0..<W]).
            0 \<le> row + int r \<and> row + int r < int (length g)"
      using False assms by auto
    from canPlaceScan_char [OF this, of sh col] False show ?thesis
      unfolding unfold H_def [symmetric] W_def [symmetric] by auto
  qed
qed

lemma canPlace_color: "canPlace g sh c1 row col = canPlace g sh c2 row col"
  by (simp add: canPlace_def)

text \<open>Every catalog shape is a non-empty rectangle with an occupied cell in its first row.\<close>

lemma catalog_rect:
  "list_all (\<lambda>sh. sh \<noteq> [] \<and> list_all (\<lambda>rw. length rw = length (hd sh)) sh) SHAPES"
  by code_simp

lemma catalog_shape:
  "sh \<in> set SHAPES \<Longrightarrow> sh \<noteq> [] \<and> (\<forall>rw \<in> set sh. length rw = length (hd sh))"
  using catalog_rect unfolding list_all_iff by blast

lemma catalog_shapeCell:
  assumes "sh \<in> set SHAPES" and "shapeCell sh r c"
  shows "r < length sh \<and> c < length (hd sh)"
proof -
  from assms(2) have r: "r < length sh" and c: "c < length (sh ! r)"
    by (simp_all add: shapeCell_def)
  from r have "sh ! r \<in> set sh" by simp
  with catalog_shape [OF assms(1)] have "length (sh ! r) = length (hd sh)" by blast
  with r c show ?thesis by simp
qed

lemma catalog_first_row:
  "list_all (\<lambda>sh. list_ex (\<lambda>c. shapeCell sh 0 c) [0..<length (hd sh)]) SHAPES"
  by code_simp

text \<open>Above the grid: a catalog shape inside the two bounds at a negative row is read at
  \<^verbatim>\<open>state.grid[row]\<close>, which is \<^verbatim>\<open>undefined\<close>.\<close>

lemma canPlaceScan_first_row_throws:
  assumes "row < 0" and "\<exists>c \<in> set cs. shapeCell sh 0 c"
  shows "canPlaceScan g sh row col (map (Pair 0) cs @ rest) = Inl TypeError"
  using assms(2)
proof (induction cs)
  case Nil
  then show ?case by simp
next
  case (Cons c cs)
  show ?case
  proof (cases "shapeCell sh 0 c")
    case True
    with assms(1) show ?thesis by (simp add: gridRead_def)
  next
    case False
    with Cons.prems have "\<exists>c \<in> set cs. shapeCell sh 0 c" by simp
    from Cons.IH [OF this] False show ?thesis by simp
  qed
qed

lemma canPlace_negative_row:
  assumes sh: "sh \<in> set SHAPES" and neg: "row < 0"
    and inside: "row + int (height sh) \<le> int ROWS" "col + int (width sh) \<le> int COLS"
  shows "canPlace g sh colr row col = Inl TypeError"
proof -
  from catalog_shape [OF sh] obtain row0 rest where c: "sh = row0 # rest" by (cases sh) auto
  from catalog_first_row sh have "list_ex (\<lambda>c. shapeCell sh 0 c) [0..<length (hd sh)]"
    unfolding list_all_iff by blast
  with c have ex: "\<exists>c \<in> set [0..<length row0]. shapeCell sh 0 c"
    by (simp add: list_ex_iff)
  from c have "0 < length sh" by simp
  then have "[0..<length sh] = 0 # [Suc 0..<length sh]" by (rule upt_conv_Cons)
  then have "List.product [0..<length sh] [0..<length row0] =
      map (Pair 0) [0..<length row0] @ List.product [Suc 0..<length sh] [0..<length row0]"
    by simp
  with canPlaceScan_first_row_throws [OF neg ex]
  have "canPlaceScan g sh row col (List.product [0..<length sh] [0..<length row0])
          = Inl TypeError"
    by simp
  with inside c show ?thesis by (simp add: canPlace_def height_def width_def)
qed

text \<open>\<^verbatim>\<open>canPlaceAny\<close> tries exactly the anchors inside the grid.\<close>

lemma canPlaceAnyScan_char:
  assumes "sh \<noteq> []" and "ROWS \<le> length g" and "\<forall>(r, c) \<in> set ps. 0 \<le> r"
  shows "canPlaceAnyScan g sh ps = Inr (\<exists>(r, c) \<in> set ps. canPlace g sh Null r c = Inr True)"
  using assms(3)
proof (induction ps)
  case Nil
  show ?case by simp
next
  case (Cons p ps)
  obtain r c where p: "p = (r, c)" by (cases p)
  from Cons.prems p have r: "0 \<le> r" by simp
  obtain ok where ok: "canPlace g sh Null r c = Inr ok"
    using canPlace_char [OF assms(1) r assms(2)] by blast
  from Cons.prems have "\<forall>(r, c) \<in> set ps. 0 \<le> r" by simp
  from Cons.IH [OF this] ok show ?case
    by (simp add: p)
qed

lemma set_anchors:
  "set (anchors sh) =
     {(r, c). 0 \<le> r \<and> r \<le> int ROWS - int (length sh) \<and>
              0 \<le> c \<and> c \<le> int COLS - int (length (hd sh))}"
  by (auto simp: anchors_def)

lemma canPlaceAny_char:
  assumes "ROWS \<le> length g" and "\<forall>b \<in> set bs. shape b \<noteq> []"
  shows "canPlaceAny g bs =
    Inr (\<exists>b \<in> set bs. \<exists>r c.
           0 \<le> r \<and> r \<le> int ROWS - int (length (shape b)) \<and>
           0 \<le> c \<and> c \<le> int COLS - int (length (hd (shape b))) \<and>
           canPlace g (shape b) Null r c = Inr True)"
  using assms(2)
proof (induction bs)
  case Nil
  show ?case by simp
next
  case (Cons b bs)
  from Cons.prems have ne: "shape b \<noteq> []" by simp
  then obtain row0 rest where sh: "shape b = row0 # rest" by (cases "shape b") auto
  have pos: "\<forall>(r, c) \<in> set (anchors (shape b)). 0 \<le> r"
    by (simp add: set_anchors)
  have scan: "canPlaceAnyScan g (shape b) (anchors (shape b)) =
      Inr (\<exists>r c. 0 \<le> r \<and> r \<le> int ROWS - int (length (shape b)) \<and>
           0 \<le> c \<and> c \<le> int COLS - int (length (hd (shape b))) \<and>
           canPlace g (shape b) Null r c = Inr True)"
    unfolding canPlaceAnyScan_char [OF ne assms(1) pos] set_anchors by auto
  from Cons.prems have "\<forall>b \<in> set bs. shape b \<noteq> []" by simp
  from Cons.IH [OF this] have ih: "canPlaceAny g bs =
    Inr (\<exists>b \<in> set bs. \<exists>r c.
           0 \<le> r \<and> r \<le> int ROWS - int (length (shape b)) \<and>
           0 \<le> c \<and> c \<le> int COLS - int (length (hd (shape b))) \<and>
           canPlace g (shape b) Null r c = Inr True)" .
  show ?case
    unfolding canPlaceAny.simps scan ih using sh by auto
qed

subsection \<open>placeBlock\<close>

text \<open>\<^verbatim>\<open>placeBlock\<close> writes the colour or leaves a cell as it was, and it cannot throw where
  \<^verbatim>\<open>canPlace\<close> has returned true.\<close>

lemma gridOk_iff:
  "gridOk g \<longleftrightarrow>
     length g = ROWS \<and> (\<forall>r < ROWS. \<forall>c < COLS. (g ! r) (int c) = Zero \<or> truthy ((g ! r) (int c)))"
  by (simp add: gridOk_def list_all_iff Ball_def)

lemma placeBlockLoop_cells:
  "placeBlockLoop g sh colr row col ps = Inr g1 \<Longrightarrow>
   length g1 = length g \<and> (\<forall>i < length g. \<forall>j. (g1 ! i) j = colr \<or> (g1 ! i) j = (g ! i) j)"
proof (induction ps arbitrary: g)
  case Nil
  then show ?case by simp
next
  case (Cons p ps)
  obtain r c where p: "p = (r, c)" by (cases p)
  show ?case
  proof (cases "shapeCell sh r c")
    case False
    with Cons.prems p have "placeBlockLoop g sh colr row col ps = Inr g1" by simp
    from Cons.IH [OF this] show ?thesis .
  next
    case True
    with Cons.prems p obtain g' where
      w: "gridWrite g (row + int r) (col + int c) colr = Inr g'" and
      rest: "placeBlockLoop g' sh colr row col ps = Inr g1"
      by (auto split: sum.splits)
    from w have g': "g' = g[nat (row + int r) := (g ! nat (row + int r))(col + int c := colr)]"
      by (simp add: gridWrite_def split: if_splits)
    then have len: "length g' = length g" by simp
    have cell: "(g' ! i) j = colr \<or> (g' ! i) j = (g ! i) j" if "i < length g" for i j
      using that unfolding g' by (cases "i = nat (row + int r)") auto
    from Cons.IH [OF rest] len
    have "length g1 = length g"
      and "\<forall>i < length g. \<forall>j. (g1 ! i) j = colr \<or> (g1 ! i) j = (g' ! i) j"
      by simp_all
    with cell show ?thesis by metis
  qed
qed

lemma placeBlock_cells:
  assumes "placeBlock g sh colr row col = Inr g1"
  shows "length g1 = length g \<and> (\<forall>i < length g. \<forall>j. (g1 ! i) j = colr \<or> (g1 ! i) j = (g ! i) j)"
proof (cases sh)
  case Nil
  with assms show ?thesis by (simp add: placeBlock_def)
next
  case (Cons row0 rest)
  with assms have "placeBlockLoop g sh colr row col
      (List.product [0..<length sh] [0..<length row0]) = Inr g1"
    by (simp add: placeBlock_def)
  from placeBlockLoop_cells [OF this] show ?thesis .
qed

lemma placeBlock_gridOk:
  assumes "placeBlock g sh colr row col = Inr g1" and "gridOk g" and "truthy colr"
  shows "gridOk g1"
  using placeBlock_cells [OF assms(1)] assms(2,3)
  unfolding gridOk_iff by metis

lemma canPlace_then_placeLoop:
  "canPlaceScan g sh row col ps = Inr True \<Longrightarrow> length g' = length g \<Longrightarrow>
   \<exists>g1. placeBlockLoop g' sh colr row col ps = Inr g1"
proof (induction ps arbitrary: g')
  case Nil
  show ?case by simp
next
  case (Cons p ps)
  obtain r c where p: "p = (r, c)" by (cases p)
  show ?case
  proof (cases "shapeCell sh r c")
    case False
    with Cons.prems p have "canPlaceScan g sh row col ps = Inr True" by simp
    from Cons.IH [OF this Cons.prems(2)] False p show ?thesis by simp
  next
    case True
    with Cons.prems(1) p have
      inr: "0 \<le> row + int r \<and> row + int r < int (length g)" and
      rest: "canPlaceScan g sh row col ps = Inr True"
      by (auto simp: gridRead_def split: if_splits sum.splits)
    with Cons.prems(2) obtain g'' where
      w: "gridWrite g' (row + int r) (col + int c) colr = Inr g''" and "length g'' = length g"
      by (simp add: gridWrite_def)
    from Cons.IH [OF rest this(2)] True p w show ?thesis by simp
  qed
qed

lemma canPlace_then_placeBlock:
  assumes "canPlace g sh c1 row col = Inr True"
  shows "\<exists>g1. placeBlock g sh c2 row col = Inr g1"
proof (cases sh)
  case Nil
  with assms show ?thesis by (simp add: canPlace_def)
next
  case (Cons row0 rest)
  with assms have "canPlaceScan g sh row col (List.product [0..<length sh] [0..<length row0])
      = Inr True"
    by (simp add: canPlace_def split: if_splits)
  from canPlace_then_placeLoop [OF this refl, of c2] Cons show ?thesis
    by (simp add: placeBlock_def)
qed

subsection \<open>clearLines\<close>

lemma rowFull_iff: "rowFull g r \<longleftrightarrow> (\<forall>c < COLS. (g ! r) (int c) \<noteq> Zero)"
  by (auto simp: rowFull_def list_all_iff)

lemma colFull_iff: "colFull g c \<longleftrightarrow> (\<forall>r < ROWS. truthy ((g ! r) (int c)))"
  by (auto simp: colFull_def list_all_iff)

lemma length_zeroCell [simp]: "length (zeroCell r c g) = length g"
  by (simp add: zeroCell_def)

lemma zeroCell_nth:
  "i < length g \<Longrightarrow>
   (zeroCell r c g ! i) j = (if i = r \<and> j = int c then Zero else (g ! i) j)"
  by (cases "i = r") (simp_all add: zeroCell_def)

lemma length_fold_row [simp]: "length (fold (\<lambda>c. zeroCell r c) cs g) = length g"
  by (induction cs arbitrary: g) simp_all

lemma length_fold_col [simp]: "length (fold (\<lambda>r. zeroCell r c) rs g) = length g"
  by (induction rs arbitrary: g) simp_all

lemma fold_row_nth:
  "i < length g \<Longrightarrow>
   (fold (\<lambda>c. zeroCell r c) cs g ! i) j =
   (if i = r \<and> j \<in> int ` set cs then Zero else (g ! i) j)"
  by (induction cs arbitrary: g) (auto simp: zeroCell_nth)

lemma fold_col_nth:
  "i < length g \<Longrightarrow>
   (fold (\<lambda>r. zeroCell r c) rs g ! i) j =
   (if i \<in> set rs \<and> j = int c then Zero else (g ! i) j)"
  by (induction rs arbitrary: g) (auto simp: zeroCell_nth)

lemma int_image_upt: "j \<in> int ` {0..<n} \<longleftrightarrow> 0 \<le> j \<and> j < int n"
proof
  assume "j \<in> int ` {0..<n}"
  then show "0 \<le> j \<and> j < int n" by auto
next
  assume "0 \<le> j \<and> j < int n"
  then have "nat j \<in> {0..<n}" and "j = int (nat j)" by auto
  then show "j \<in> int ` {0..<n}" by blast
qed

lemma length_clearRow [simp]: "length (clearRow r g) = length g"
  by (simp add: clearRow_def)

lemma clearRow_nth:
  "i < length g \<Longrightarrow>
   (clearRow r g ! i) j = (if i = r \<and> 0 \<le> j \<and> j < int COLS then Zero else (g ! i) j)"
  by (simp add: clearRow_def fold_row_nth int_image_upt)

lemma length_clearCol [simp]: "length (clearCol c g) = length g"
  by (simp add: clearCol_def)

lemma clearCol_nth:
  "i < length g \<Longrightarrow>
   (clearCol c g ! i) j = (if i < ROWS \<and> j = int c then Zero else (g ! i) j)"
  by (simp add: clearCol_def fold_col_nth)

lemma length_fold_clearRow [simp]: "length (fold clearRow rs g) = length g"
  by (induction rs arbitrary: g) simp_all

lemma length_fold_clearCol [simp]: "length (fold clearCol cs g) = length g"
  by (induction cs arbitrary: g) simp_all

lemma fold_clearRow_nth:
  "i < length g \<Longrightarrow>
   (fold clearRow rs g ! i) j =
   (if i \<in> set rs \<and> 0 \<le> j \<and> j < int COLS then Zero else (g ! i) j)"
  by (induction rs arbitrary: g) (auto simp: clearRow_nth)

lemma fold_clearCol_nth:
  "i < length g \<Longrightarrow>
   (fold clearCol cs g ! i) j =
   (if i < ROWS \<and> j \<in> int ` set cs then Zero else (g ! i) j)"
  by (induction cs arbitrary: g) (auto simp: clearCol_nth)

text \<open>The grid after both clearing loops, cell by cell.\<close>

lemma cleared_grid_nth:
  assumes "i < length g"
  shows "(fold clearCol cs (fold clearRow rs g) ! i) j =
     (if (i \<in> set rs \<and> 0 \<le> j \<and> j < int COLS) \<or> (i < ROWS \<and> j \<in> int ` set cs)
      then Zero else (g ! i) j)"
  using assms by (simp add: fold_clearCol_nth fold_clearRow_nth)

text \<open>\<^verbatim>\<open>clearLines\<close> returns on a grid of at least \<open>ROWS\<close> rows; its result.\<close>

lemma clearLines_unfold:
  assumes "ROWS \<le> length (grid s)"
  shows "\<exists>s'. clearLines s =
           Inr (\<lparr>count = length (filter (rowFull (grid s)) [0..<ROWS])
                         + length (filter (colFull (grid s)) [0..<COLS]),
                  rows = filter (rowFull (grid s)) [0..<ROWS],
                  cols = filter (colFull (grid s)) [0..<COLS]\<rparr>, s') \<and>
           grid s' = fold clearCol (filter (colFull (grid s)) [0..<COLS])
                       (fold clearRow (filter (rowFull (grid s)) [0..<ROWS]) (grid s))"
  using assms by (simp add: clearLines_def Let_def)

lemma clearLines_result:
  assumes "clearLines s = Inr (lc, s')"
  shows "ROWS \<le> length (grid s) \<and>
         rows lc = filter (rowFull (grid s)) [0..<ROWS] \<and>
         cols lc = filter (colFull (grid s)) [0..<COLS] \<and>
         grid s' = fold clearCol (cols lc) (fold clearRow (rows lc) (grid s))"
proof -
  from assms have len: "ROWS \<le> length (grid s)"
    by (simp add: clearLines_def split: if_splits)
  from clearLines_unfold [OF len] assms len show ?thesis by auto
qed

lemma clearLines_fields:
  assumes "clearLines s = Inr (lc, s2)"
  shows "currentBlocks s2 = currentBlocks s \<and> gameOver s2 = gameOver s \<and>
         selectedBlockIndex s2 = selectedBlockIndex s \<and>
         draggingBlockIndex s2 = draggingBlockIndex s \<and>
         count lc = length (rows lc) + length (cols lc) \<and>
         (count lc = 0 \<longrightarrow> s2 = s) \<and>
         (count lc > 0 \<longrightarrow>
            score s2 = score s + (int (count lc) * 10 + 2 ^ count lc
                                  + (if streak s > 0 then streak s * 20 else 0)) \<and>
            combo s2 = int (count lc) \<and> streak s2 = streak s + 1 \<and> lastMoveCleared s2)"
proof -
  define rs where "rs = filter (rowFull (grid s)) [0..<ROWS]"
  define cs where "cs = filter (colFull (grid s)) [0..<COLS]"
  define n where "n = length rs + length cs"
  have eq: "clearLines s =
      (if length (grid s) < ROWS then Inl TypeError
       else if n = 0 then Inr (\<lparr>count = 0, rows = [], cols = []\<rparr>, s)
       else Inr (\<lparr>count = n, rows = rs, cols = cs\<rparr>,
             s\<lparr>grid := fold clearCol cs (fold clearRow rs (grid s)),
               score := score s + (int n * 10 + 2 ^ n
                          + (if streak s > 0 then streak s * 20 else 0)),
               combo := int n, lastMoveCleared := True, streak := streak s + 1\<rparr>))"
    unfolding clearLines_def Let_def n_def rs_def cs_def by (rule refl)
  from assms have len: "\<not> length (grid s) < ROWS"
    unfolding eq by (simp split: if_splits)
  show ?thesis
  proof (cases "n = 0")
    case True
    with len assms have "lc = \<lparr>count = 0, rows = [], cols = []\<rparr>" and "s2 = s"
      unfolding eq by simp_all
    then show ?thesis by simp
  next
    case False
    with len assms have lc: "lc = \<lparr>count = n, rows = rs, cols = cs\<rparr>" and
      s2: "s2 = s\<lparr>grid := fold clearCol cs (fold clearRow rs (grid s)),
               score := score s + (int n * 10 + 2 ^ n
                          + (if streak s > 0 then streak s * 20 else 0)),
               combo := int n, lastMoveCleared := True, streak := streak s + 1\<rparr>"
      unfolding eq by simp_all
    have sum: "count lc = length (rows lc) + length (cols lc)"
      unfolding lc by (simp add: n_def)
    from False have "0 < n" by simp
    then show ?thesis unfolding sum [symmetric] unfolding lc s2 by simp
  qed
qed

lemma gridOk_full_agree:
  assumes "gridOk g" and "r < ROWS"
  shows "rowFull g r \<longleftrightarrow> (\<forall>c < COLS. occupied g r c)"
  using assms unfolding rowFull_iff gridOk_iff occupied_def
  by (metis truthy.simps(3))

text \<open>After \<^verbatim>\<open>clearLines\<close> no row and no column is fully occupied, and a well-formed grid
  stays well-formed.\<close>

lemma clearLines_no_full_line:
  assumes cl: "clearLines s = Inr (lc, s')"
  shows "(\<forall>r < ROWS. \<exists>c < COLS. \<not> occupied (grid s') r c) \<and>
         (\<forall>c < COLS. \<exists>r < ROWS. \<not> occupied (grid s') r c)"
proof -
  from clearLines_result [OF cl] have
    len: "ROWS \<le> length (grid s)" and
    rs: "rows lc = filter (rowFull (grid s)) [0..<ROWS]" and
    cs: "cols lc = filter (colFull (grid s)) [0..<COLS]" and
    g': "grid s' = fold clearCol (cols lc) (fold clearRow (rows lc) (grid s))"
    by simp_all
  have cell: "(grid s' ! r) (int c) =
          (if r \<in> set (rows lc) \<or> c \<in> set (cols lc) then Zero else (grid s ! r) (int c))"
    if "r < ROWS" and "c < COLS" for r c
  proof -
    from that len have "r < length (grid s)" by simp
    from cleared_grid_nth [OF this, of "cols lc" "rows lc" "int c"] that
    show ?thesis unfolding g' by auto
  qed
  have row: "\<exists>c < COLS. \<not> occupied (grid s') r c" if r: "r < ROWS" for r
  proof (cases "rowFull (grid s) r")
    case True
    with r have "r \<in> set (rows lc)" by (simp add: rs)
    with cell [OF r, of 0] have "(grid s' ! r) (int 0) = Zero" by (simp add: COLS_def)
    then have "0 < COLS \<and> \<not> occupied (grid s') r 0" by (simp add: occupied_def COLS_def)
    then show ?thesis by blast
  next
    case False
    then obtain c where c: "c < COLS" and z: "(grid s ! r) (int c) = Zero"
      by (auto simp: rowFull_iff)
    from cell [OF r c] z have "(grid s' ! r) (int c) = Zero" by simp
    with c show ?thesis by (auto simp: occupied_def)
  qed
  have col: "\<exists>r < ROWS. \<not> occupied (grid s') r c" if c: "c < COLS" for c
  proof (cases "colFull (grid s) c")
    case True
    with c have "c \<in> set (cols lc)" by (simp add: cs)
    with cell [of 0 c] c have "(grid s' ! 0) (int c) = Zero" by (simp add: ROWS_def)
    then have "0 < ROWS \<and> \<not> occupied (grid s') 0 c" by (simp add: occupied_def ROWS_def)
    then show ?thesis by blast
  next
    case False
    then obtain r where r: "r < ROWS" and z: "\<not> truthy ((grid s ! r) (int c))"
      by (auto simp: colFull_iff)
    from cell [OF r c] z have "\<not> truthy ((grid s' ! r) (int c))" by auto
    with r show ?thesis by (auto simp: occupied_def)
  qed
  from row col show ?thesis by blast
qed

lemma clearLines_gridOk:
  assumes cl: "clearLines s = Inr (lc, s')" and ok: "gridOk (grid s)"
  shows "gridOk (grid s')"
proof -
  from clearLines_result [OF cl] have
    g': "grid s' = fold clearCol (cols lc) (fold clearRow (rows lc) (grid s))"
    by simp
  from ok have len: "length (grid s) = ROWS" by (simp add: gridOk_iff)
  have "(grid s' ! r) (int c) = Zero \<or> (grid s' ! r) (int c) = (grid s ! r) (int c)"
    if "r < ROWS" for r c
  proof -
    from that len have "r < length (grid s)" by simp
    from cleared_grid_nth [OF this, of "cols lc" "rows lc" "int c"]
    show ?thesis unfolding g' by auto
  qed
  moreover have "length (grid s') = ROWS" unfolding g' using len by simp
  ultimately show ?thesis using ok unfolding gridOk_iff by metis
qed

subsection \<open>Random blocks and the refill\<close>

text \<open>
  Rounding. \<open>expo\<close> is the binary exponent wherever its steps suffice, and in any case
  it stays below every power of two above its argument, which bounds the spacing of
  the doubles around a number from above.
\<close>

lemma expo_bounds:
  "2 powi (- int n) \<le> x \<Longrightarrow> x < 2 powi (int n + 1) \<Longrightarrow>
   2 powi (expo n x) \<le> x \<and> x < 2 powi (expo n x + 1)"
proof (induction n arbitrary: x)
  case 0
  then show ?case by simp
next
  case (Suc n)
  have pos: "(0::real) < 2 powi (- int n)" by simp
  show ?case
  proof (cases "2 \<le> x")
    case True
    have "2 powi (- int n) \<le> (1::real)"
      by (simp add: power_int_minus inverse_le_1_iff one_le_power)
    with True have lo: "2 powi (- int n) \<le> x / 2" by simp
    from Suc.prems(2) have "x < 2 powi (int n + 1) * 2"
      by (simp add: power_int_add algebra_simps)
    then have hi: "x / 2 < 2 powi (int n + 1)" by simp
    from Suc.IH [OF lo hi] True show ?thesis
      by (simp add: power_int_add algebra_simps)
  next
    case False
    show ?thesis
    proof (cases "x < 1")
      case True
      from Suc.prems(1) have "2 powi (- int n) \<le> 2 * x"
        by (simp add: power_int_diff power_int_minus algebra_simps field_simps)
      moreover have "(2::real) \<le> 2 powi (int n + 1)"
        by (simp add: power_int_add)
      with True have "2 * x < 2 powi (int n + 1)" by simp
      ultimately have "2 powi (expo n (2 * x)) \<le> 2 * x \<and> 2 * x < 2 powi (expo n (2 * x) + 1)"
        by (rule Suc.IH)
      with True False show ?thesis
        by (simp add: power_int_diff power_int_add algebra_simps field_simps)
    next
      case F2: False
      with False show ?thesis by simp
    qed
  qed
qed

lemma pow2_less_imp: "(2::real) powi m < 2 powi n \<Longrightarrow> m < n"
proof (rule ccontr)
  assume a: "(2::real) powi m < 2 powi n" and "\<not> m < n"
  then have "n \<le> m" by simp
  then have "(2::real) powi n \<le> 2 powi m" by (rule power_int_increasing) simp
  with a show False by simp
qed

lemma expo_less: "x < 2 powi j \<Longrightarrow> 1 - int n \<le> j \<Longrightarrow> expo n x < j"
proof (induction n arbitrary: x j)
  case 0
  then show ?case by simp
next
  case (Suc n)
  show ?case
  proof (cases "2 \<le> x")
    case True
    with Suc.prems(1) have "(2::real) powi 1 < 2 powi j" by simp
    then have j: "1 < j" by (rule pow2_less_imp)
    from Suc.prems(1) have "x / 2 < 2 powi (j - 1)"
      by (simp add: power_int_diff)
    moreover from j have "1 - int n \<le> j - 1" by simp
    ultimately have "expo n (x / 2) < j - 1" by (rule Suc.IH)
    with True show ?thesis by simp
  next
    case False
    show ?thesis
    proof (cases "x < 1")
      case True
      from Suc.prems(1) have "2 * x < 2 powi (j + 1)"
        by (simp add: power_int_add)
      moreover from Suc.prems(2) have "1 - int n \<le> j + 1" by simp
      ultimately have "expo n (2 * x) < j + 1" by (rule Suc.IH)
      with True False show ?thesis by simp
    next
      case F2: False
      with Suc.prems(1) have "(2::real) powi 0 < 2 powi j" by simp
      then have "0 < j" by (rule pow2_less_imp)
      with False F2 show ?thesis by simp
    qed
  qed
qed


lemma rne_lower: "of_int j \<le> m \<Longrightarrow> j \<le> rne m"
proof -
  assume "of_int j \<le> m"
  then have "j \<le> \<lfloor>m\<rfloor>" by (simp add: le_floor_iff)
  then show ?thesis by (simp add: rne_def Let_def)
qed

lemma rne_upper: "m \<le> of_int j \<Longrightarrow> rne m \<le> j"
proof (cases "m = of_int \<lfloor>m\<rfloor>")
  case True
  assume "m \<le> of_int j"
  then have "\<lfloor>m\<rfloor> \<le> j" by (metis floor_mono floor_of_int)
  with True show ?thesis by (simp add: rne_def Let_def)
next
  case False
  assume le: "m \<le> of_int j"
  have "of_int \<lfloor>m\<rfloor> \<le> m" by simp
  with False have "of_int \<lfloor>m\<rfloor> < m" by linarith
  with le have "(of_int \<lfloor>m\<rfloor> :: real) < of_int j" by simp
  then have "\<lfloor>m\<rfloor> < j" by simp
  then show ?thesis by (simp add: rne_def Let_def)
qed

lemma rne_err: "\<bar>of_int (rne m) - m\<bar> \<le> 1 / 2"
proof -
  have "of_int \<lfloor>m\<rfloor> \<le> m" and "m < of_int \<lfloor>m\<rfloor> + 1" by linarith+
  then show ?thesis by (auto simp add: rne_def Let_def)
qed

lemma quantum_le: "a < 2 powi j \<Longrightarrow> - 1021 \<le> j \<Longrightarrow> quantum a \<le> j - 53"
proof -
  assume a: "a < 2 powi j" and j: "- 1021 \<le> j"
  from j have "1 - int 1100 \<le> j" by simp
  with a have "expo 1100 a < j" by (rule expo_less)
  with j show ?thesis by (simp add: quantum_def)
qed

lemma fl_zero: "fl 0 = 0"
  by (simp add: fl_def)

lemma fl_pos_eq:
  "0 < a \<Longrightarrow> fl a = of_int (rne (a / 2 powi quantum a)) * 2 powi quantum a"
  by (simp add: fl_def)

lemma fl_nonneg: "0 \<le> x \<Longrightarrow> 0 \<le> fl x"
proof (cases "x = 0")
  case True
  then show ?thesis by (simp add: fl_def)
next
  case False
  assume "0 \<le> x"
  with False have x: "0 < x" by simp
  have "of_int 0 \<le> x / 2 powi quantum x" using x by simp
  then have "0 \<le> rne (x / 2 powi quantum x)" by (rule rne_lower)
  with x show ?thesis by (simp add: fl_pos_eq)
qed

lemma fl_nonpos: "x \<le> 0 \<Longrightarrow> fl x \<le> 0"
proof (cases "x = 0")
  case True
  then show ?thesis by (simp add: fl_def)
next
  case False
  assume "x \<le> 0"
  with False have x: "x < 0" by simp
  have "0 \<le> \<bar>x\<bar> / 2 powi quantum \<bar>x\<bar>"
    by (rule divide_nonneg_pos) simp_all
  then have "of_int 0 \<le> \<bar>x\<bar> / 2 powi quantum \<bar>x\<bar>" by simp
  then have "0 \<le> rne (\<bar>x\<bar> / 2 powi quantum \<bar>x\<bar>)" by (rule rne_lower)
  then have "0 \<le> real_of_int (rne (\<bar>x\<bar> / 2 powi quantum \<bar>x\<bar>)) * 2 powi quantum \<bar>x\<bar>"
    by simp
  with x show ?thesis by (simp add: fl_def mult.assoc)
qed

lemma grid_multiple:
  assumes "q \<le> t"
  shows "of_int j * (2::real) powi t = of_int (j * 2 ^ nat (t - q)) * 2 powi q"
proof -
  have "(2::real) powi t = 2 powi (t - q) * 2 powi q"
    by (simp flip: power_int_add)
  also have "(2::real) powi (t - q) = 2 ^ nat (t - q)"
    using assms by (simp add: power_int_def)
  finally show ?thesis by simp
qed

lemma fl_le_grid:
  assumes a: "0 < a" and le: "a \<le> of_int j * 2 powi t" and q: "quantum a \<le> t"
  shows "fl a \<le> of_int j * 2 powi t"
proof -
  define J where "J = j * 2 ^ nat (t - quantum a)"
  have d: "of_int j * (2::real) powi t = of_int J * 2 powi quantum a"
    unfolding J_def using q by (rule grid_multiple)
  have p: "(0::real) < 2 powi quantum a" by simp
  from le d have "a \<le> of_int J * 2 powi quantum a" by simp
  with p have "a / 2 powi quantum a \<le> of_int J" by (simp add: pos_divide_le_eq)
  then have "rne (a / 2 powi quantum a) \<le> J" by (rule rne_upper)
  then have "real_of_int (rne (a / 2 powi quantum a)) \<le> of_int J" by simp
  with p have "real_of_int (rne (a / 2 powi quantum a)) * 2 powi quantum a
      \<le> of_int J * 2 powi quantum a"
    by (rule_tac mult_right_mono) simp_all
  with a d show ?thesis by (simp add: fl_pos_eq)
qed

lemma fl_ge_grid:
  assumes a: "0 < a" and le: "of_int j * 2 powi t \<le> a" and q: "quantum a \<le> t"
  shows "of_int j * 2 powi t \<le> fl a"
proof -
  define J where "J = j * 2 ^ nat (t - quantum a)"
  have d: "of_int j * (2::real) powi t = of_int J * 2 powi quantum a"
    unfolding J_def using q by (rule grid_multiple)
  have p: "(0::real) < 2 powi quantum a" by simp
  from le d have "of_int J * 2 powi quantum a \<le> a" by simp
  with p have "of_int J \<le> a / 2 powi quantum a" by (simp add: pos_le_divide_eq)
  then have "J \<le> rne (a / 2 powi quantum a)" by (rule rne_lower)
  then have "real_of_int J \<le> of_int (rne (a / 2 powi quantum a))" by simp
  with p have "of_int J * 2 powi quantum a
      \<le> real_of_int (rne (a / 2 powi quantum a)) * 2 powi quantum a"
    by (rule_tac mult_right_mono) simp_all
  with a d show ?thesis by (simp add: fl_pos_eq)
qed

lemma fl_err:
  assumes a: "0 < a"
  shows "\<bar>fl a - a\<bar> \<le> 2 powi quantum a / 2"
proof -
  define q :: real where "q = 2 powi quantum a"
  have p: "0 < q" by (simp add: q_def)
  have "fl a - a = (of_int (rne (a / q)) - a / q) * q"
    using a p by (simp add: fl_pos_eq q_def algebra_simps)
  then have "\<bar>fl a - a\<bar> = \<bar>of_int (rne (a / q)) - a / q\<bar> * q"
    using p by (simp add: abs_mult)
  also have "\<dots> \<le> (1 / 2) * q"
    using p rne_err [of "a / q"] by (intro mult_right_mono) simp_all
  finally show ?thesis by (simp add: q_def)
qed

text \<open>
  What the program needs of the rounding: a draw times the length of a pool is
  floored to an index of the pool, and \<^verbatim>\<open>Math.floor(score / 250)\<close> is the integer
  quotient.
\<close>

lemma floor_fl_scale:
  assumes u0: "0 \<le> u" and u1: "u \<le> 1 - 1 / 2 ^ 53"
    and n: "real n \<le> 2 ^ j" "2 ^ j < 2 * real n"
  shows "0 \<le> \<lfloor>fl (u * real n)\<rfloor> \<and> \<lfloor>fl (u * real n)\<rfloor> < int n"
proof -
  from n have npos: "0 < real n" by (cases "n = 0") simp_all
  have lo: "0 \<le> fl (u * real n)" using u0 by (intro fl_nonneg) simp
  have hi: "fl (u * real n) < real n"
  proof (cases "u * real n = 0")
    case True
    from npos show ?thesis unfolding True fl_zero .
  next
    case False
    then have "u \<noteq> 0" by auto
    with u0 have "0 < u" by simp
    with npos have x: "0 < u * real n" by (rule_tac mult_pos_pos)
    from u1 npos have "u * real n \<le> (1 - 1 / 2 ^ 53) * real n"
      by (intro mult_right_mono) simp_all
    then have xle: "u * real n \<le> real n - real n / 2 ^ 53" by (simp add: algebra_simps)
    have e: "0 < real n / 2 ^ 53" using npos by simp
    from xle e n(1) have "u * real n < 2 ^ j" by linarith
    then have "u * real n < 2 powi (int j)" by simp
    then have "quantum (u * real n) \<le> int j - 53" by (rule quantum_le) simp
    then have "(2::real) powi quantum (u * real n) \<le> 2 powi (int j - 53)"
      by (rule power_int_increasing) simp
    also have "\<dots> = 2 ^ j / 2 ^ 53" by (simp add: power_int_diff)
    finally have q: "(2::real) powi quantum (u * real n) \<le> 2 ^ j / 2 ^ 53" .
    define Q :: real where "Q = 2 powi quantum (u * real n)"
    define E :: real where "E = 2 ^ j / 2 ^ 53"
    define D :: real where "D = real n / 2 ^ 53"
    from q have qe: "Q \<le> E" by (simp only: Q_def E_def)
    from xle have xd: "u * real n \<le> real n - D" by (simp only: D_def)
    from fl_err [OF x] have "\<bar>fl (u * real n) - u * real n\<bar> \<le> Q / 2"
      by (simp only: Q_def)
    then have f: "fl (u * real n) \<le> u * real n + Q / 2" by linarith
    from n(2) have "(2::real) ^ j / 2 < real n" by simp
    then have "(2::real) ^ j / 2 / 2 ^ 53 < real n / 2 ^ 53"
      by (rule divide_strict_right_mono) simp
    then have "E / 2 < D" by (simp add: E_def D_def)
    with f qe xd show ?thesis by linarith
  qed
  from lo have "0 \<le> \<lfloor>fl (u * real n)\<rfloor>" by simp
  moreover from hi have "\<lfloor>fl (u * real n)\<rfloor> < int n" by (simp add: floor_less_iff)
  ultimately show ?thesis by simp
qed

lemma floor_fl_div250:
  assumes "0 \<le> sc" and "sc < 2 ^ 50"
  shows "\<lfloor>fl (real_of_int sc / 250)\<rfloor> = sc div 250"
proof (cases "sc = 0")
  case True
  then show ?thesis by (simp add: fl_def)
next
  case False
  define k where "k = sc div 250"
  define x where "x = real_of_int sc / 250"
  from False assms have x: "0 < x" by (simp add: x_def)
  have "sc = 250 * k + sc mod 250" by (simp add: k_def)
  moreover have "0 \<le> sc mod 250" and "sc mod 250 < 250" by simp_all
  ultimately have "250 * k \<le> sc" and "sc \<le> 250 * k + 249" by linarith+
  then have "real_of_int (250 * k) \<le> real_of_int sc"
    and "real_of_int sc \<le> real_of_int (250 * k + 249)"
    by (simp_all only: of_int_le_iff)
  then have klo: "real_of_int k \<le> x" and khi: "x \<le> real_of_int k + 249 / 250"
    by (simp_all add: x_def field_simps)
  from assms(2) have "real_of_int sc < real_of_int (2 ^ 50)" by (simp only: of_int_less_iff)
  then have "x < 2 powi 45" by (simp add: x_def)
  then have "quantum x \<le> 45 - 53" by (rule quantum_le) simp
  then have q: "quantum x \<le> - 8" by simp
  from klo have "of_int k * 2 powi 0 \<le> x" by simp
  with x have "of_int k * 2 powi 0 \<le> fl x" using q by (intro fl_ge_grid) simp_all
  then have lo: "of_int k \<le> fl x" by simp
  have g: "real_of_int (256 * k + 255) * 2 powi (- 8) = real_of_int k + 255 / 256"
    by (simp add: power_int_minus field_simps)
  with khi have "x \<le> real_of_int (256 * k + 255) * 2 powi (- 8)" by simp
  with x have "fl x \<le> real_of_int (256 * k + 255) * 2 powi (- 8)"
    using q by (intro fl_le_grid)
  with g have "fl x < of_int k + 1" by simp
  with lo have "\<lfloor>fl x\<rfloor> = k" by (intro floor_unique)
  then show ?thesis by (simp add: x_def k_def)
qed

lemma floor_fl_nonpos: "x \<le> 0 \<Longrightarrow> \<lfloor>fl x\<rfloor> \<le> 0"
proof -
  assume "x \<le> 0"
  then have "fl x \<le> 0" by (rule fl_nonpos)
  then show ?thesis by (simp add: floor_le_iff)
qed

text \<open>
  Some values: the double written \<^verbatim>\<open>0.08\<close> and its product with 1; a third; the two
  ways of a tie; and the product of 23 and the double nearest to 16/23, which is below
  16 and is rounded to 16.
\<close>

lemma fl_examples:
  "fl (1 / 3) = 6004799503160661 / 18014398509481984 \<and>
   fl (1 + 1 / 2 ^ 53) = 1 \<and> fl (1 + 3 / 2 ^ 53) = 1 + 1 / 2 ^ 51 \<and>
   1566469435607129 / 2251799813685248 * 23 < (16::real) \<and>
   fl (1566469435607129 / 2251799813685248 * 23) = 16"
  by code_simp



lemma js_nth_in_range:
  "0 \<le> i \<Longrightarrow> i < int (length xs) \<Longrightarrow> \<exists>x. js_nth xs i = Some x \<and> x \<in> set xs"
  by (simp add: js_nth_def)

lemma js_nth_Some: "js_nth xs i = Some x \<Longrightarrow> x \<in> set xs"
  by (auto simp: js_nth_def split: if_splits)

lemma js_nth_upt: "0 \<le> k \<Longrightarrow> k < int n \<Longrightarrow> js_nth [0..<n] k = Some (nat k)"
  by (simp add: js_nth_def)

lemma js_nth_nat: "0 \<le> k \<Longrightarrow> k < int (length xs) \<Longrightarrow> js_nth xs k = Some (xs ! nat k)"
  by (simp add: js_nth_def)

lemma Math_random_valid:
  "validRng g \<Longrightarrow> Math_random g = (u, g') \<Longrightarrow> 0 \<le> u \<and> u \<le> 1 - 1 / 2 ^ 53 \<and> validRng g'"
  by (auto simp: validRng_def Math_random_def)

lemma validRng_shift: "validRng g \<Longrightarrow> validRng (\<lambda>n. g (n + k))"
  by (simp add: validRng_def)

lemma useLargePool_valid:
  "validRng g \<Longrightarrow> useLargePool sc g = (large, g') \<Longrightarrow> validRng g'"
  by (auto simp: useLargePool_def validRng_def Math_random_def split: if_splits)

lemma length_SHAPES: "length SHAPES = 23"
  by code_simp

lemma length_LARGE_SHAPE_INDICES: "length LARGE_SHAPE_INDICES = 13"
  by code_simp

lemma length_COLORS: "length COLORS = 5"
  by code_simp

lemma large_indices_in_range: "\<forall>i \<in> set LARGE_SHAPE_INDICES. i < length SHAPES"
  by code_simp


text \<open>The level and the chance up to score 499.\<close>

lemma level_div: "0 \<le> sc \<Longrightarrow> sc < 2 ^ 50 \<Longrightarrow> level sc = sc div 250"
  unfolding level_def by (rule floor_fl_div250)

lemma level_nonpos: "sc < 250 \<Longrightarrow> level sc \<le> 0"
proof (cases "0 \<le> sc")
  case True
  assume "sc < 250"
  with True have "level sc = sc div 250" by (intro level_div) simp_all
  with True \<open>sc < 250\<close> show ?thesis by simp
next
  case False
  then have "real_of_int sc / 250 \<le> 0" by simp
  then show ?thesis unfolding level_def by (rule floor_fl_nonpos)
qed

lemma largeChance_below_250: "sc < 250 \<Longrightarrow> \<not> 0 < largeChance sc"
proof -
  assume "sc < 250"
  then have "level sc \<le> 0" by (rule level_nonpos)
  then have "real_of_int (level sc) \<le> 0" by simp
  moreover have "0 \<le> fl (8 / 100)" by (rule fl_nonneg) simp
  ultimately have "real_of_int (level sc) * fl (8 / 100) \<le> 0"
    by (rule mult_nonpos_nonneg)
  then have "largeChance sc \<le> 0" unfolding largeChance_def by (rule fl_nonpos)
  then show ?thesis by simp
qed




lemma useLargePool_below_250: "sc < 250 \<Longrightarrow> useLargePool sc g = (False, g)"
  using largeChance_below_250 [of sc] by (simp add: useLargePool_def)


text \<open>
  What \<^verbatim>\<open>randomShape\<close> returns once the pool is chosen, for draws of \<^verbatim>\<open>Math.random()\<close>:
  the next draw picks the shape, the one after it the colour.
\<close>

lemma randomShape_full:
  assumes v: "validRng g1" and lp: "useLargePool sc g = (False, g1)"
  shows "randomShape sc g =
           Inr (\<lparr>shape = SHAPES ! nat \<lfloor>fl (g1 0 * 23)\<rfloor>,
                  color = Tag (COLORS ! nat \<lfloor>fl (g1 1 * 5)\<rfloor>)\<rparr>, \<lambda>n. g1 (n + 2))"
proof -
  from v have u: "0 \<le> g1 0" "g1 0 \<le> 1 - 1 / 2 ^ 53" "0 \<le> g1 1" "g1 1 \<le> 1 - 1 / 2 ^ 53"
    by (simp_all add: validRng_def)
  define k where "k = \<lfloor>fl (g1 0 * 23)\<rfloor>"
  define c where "c = \<lfloor>fl (g1 1 * 5)\<rfloor>"
  from floor_fl_scale [OF u(1,2), of 23 5]
  have k: "0 \<le> k" "k < 23" by (simp_all add: k_def)
  from floor_fl_scale [OF u(3,4), of 5 3]
  have c: "0 \<le> c" "c < 5" by (simp_all add: c_def)
  from k have idx: "js_nth [0..<23] k = Some (nat k)"
    by (intro js_nth_upt) simp_all
  from k have sh: "js_nth SHAPES (int (nat k)) = Some (SHAPES ! nat k)"
    by (simp add: js_nth_def length_SHAPES)
  from c have col: "js_nth COLORS c = Some (COLORS ! nat c)"
    by (intro js_nth_nat) (simp_all add: length_COLORS)
  have "randomShape sc g =
      Inr (\<lparr>shape = SHAPES ! nat k, color = Tag (COLORS ! nat c)\<rparr>, \<lambda>n. g1 (n + 2))"
    using k c idx sh col unfolding k_def c_def
    by (simp add: randomShape_def lp Math_random_def length_SHAPES length_COLORS
        del: upt_rec_numeral)
  then show ?thesis unfolding k_def c_def .
qed

lemma randomShape_large:
  assumes v: "validRng g1" and lp: "useLargePool sc g = (True, g1)"
  shows "randomShape sc g =
           Inr (\<lparr>shape = SHAPES ! (LARGE_SHAPE_INDICES ! nat \<lfloor>fl (g1 0 * 13)\<rfloor>),
                  color = Tag (COLORS ! nat \<lfloor>fl (g1 1 * 5)\<rfloor>)\<rparr>, \<lambda>n. g1 (n + 2)) \<and>
         nat \<lfloor>fl (g1 0 * 13)\<rfloor> < 13"
proof -
  from v have u: "0 \<le> g1 0" "g1 0 \<le> 1 - 1 / 2 ^ 53" "0 \<le> g1 1" "g1 1 \<le> 1 - 1 / 2 ^ 53"
    by (simp_all add: validRng_def)
  define k where "k = \<lfloor>fl (g1 0 * 13)\<rfloor>"
  define c where "c = \<lfloor>fl (g1 1 * 5)\<rfloor>"
  from floor_fl_scale [OF u(1,2), of 13 4]
  have k: "0 \<le> k" "k < 13" by (simp_all add: k_def)
  from floor_fl_scale [OF u(3,4), of 5 3]
  have c: "0 \<le> c" "c < 5" by (simp_all add: c_def)
  from k have nk: "nat k < 13" by simp
  from k have idx: "js_nth LARGE_SHAPE_INDICES k = Some (LARGE_SHAPE_INDICES ! nat k)"
    by (intro js_nth_nat) (simp_all add: length_LARGE_SHAPE_INDICES)
  from nk have "LARGE_SHAPE_INDICES ! nat k \<in> set LARGE_SHAPE_INDICES"
    by (intro nth_mem) (simp add: length_LARGE_SHAPE_INDICES)
  with large_indices_in_range have "LARGE_SHAPE_INDICES ! nat k < length SHAPES" by blast
  then have sh: "js_nth SHAPES (int (LARGE_SHAPE_INDICES ! nat k))
                   = Some (SHAPES ! (LARGE_SHAPE_INDICES ! nat k))"
    by (simp add: js_nth_def)
  from c have col: "js_nth COLORS c = Some (COLORS ! nat c)"
    by (intro js_nth_nat) (simp_all add: length_COLORS)
  from nk k sh have sh': "js_nth SHAPES (int (LARGE_SHAPE_INDICES ! nat \<lfloor>fl (g1 0 * 13)\<rfloor>))
      = Some (SHAPES ! (LARGE_SHAPE_INDICES ! nat \<lfloor>fl (g1 0 * 13)\<rfloor>))"
    unfolding k_def by simp
  have "randomShape sc g =
      Inr (\<lparr>shape = SHAPES ! (LARGE_SHAPE_INDICES ! nat k),
             color = Tag (COLORS ! nat c)\<rparr>, \<lambda>n. g1 (n + 2))"
    using k c idx col unfolding k_def c_def
    by (simp add: randomShape_def lp Math_random_def length_LARGE_SHAPE_INDICES length_COLORS sh')
  then have "randomShape sc g =
      Inr (\<lparr>shape = SHAPES ! (LARGE_SHAPE_INDICES ! nat k),
             color = Tag (COLORS ! nat c)\<rparr>, \<lambda>n. g1 (n + 2))" .
  from this nk show ?thesis unfolding k_def c_def by (rule conjI)
qed

text \<open>
  With draws of \<^verbatim>\<open>Math.random()\<close>, \<^verbatim>\<open>randomShape\<close> returns a catalog shape in a palette
  colour.
\<close>

lemma nth_SHAPES_ok: "k < 23 \<Longrightarrow> SHAPES ! k \<in> set SHAPES"
  by (simp add: length_SHAPES)

lemma nth_COLORS_ok: "0 \<le> c \<Longrightarrow> c < 5 \<Longrightarrow> Tag (COLORS ! nat c) \<in> Tag ` set COLORS"
  by (simp add: length_COLORS)

lemma randomShape_valid:
  assumes v: "validRng g"
  shows "\<exists>b g'. randomShape sc g = Inr (b, g') \<and> blockOk b \<and> validRng g'"
proof -
  obtain large g1 where lp: "useLargePool sc g = (large, g1)" by (cases "useLargePool sc g")
  from useLargePool_valid [OF v lp] have v1: "validRng g1" .
  then have u: "0 \<le> g1 0" "g1 0 \<le> 1 - 1 / 2 ^ 53" "0 \<le> g1 1" "g1 1 \<le> 1 - 1 / 2 ^ 53"
    by (simp_all add: validRng_def)
  define k where "k = \<lfloor>fl (g1 0 * 23)\<rfloor>"
  define c where "c = \<lfloor>fl (g1 1 * 5)\<rfloor>"
  from floor_fl_scale [OF u(1,2), of 23 5]
  have k: "0 \<le> k" "k < 23" by (simp_all add: k_def)
  from floor_fl_scale [OF u(3,4), of 5 3]
  have c: "0 \<le> c" "c < 5" by (simp_all add: c_def)
  then have "Tag (COLORS ! nat c) \<in> Tag ` set COLORS"
    by (rule nth_COLORS_ok)
  then have col: "Tag (COLORS ! nat \<lfloor>fl (g1 1 * 5)\<rfloor>) \<in> Tag ` set COLORS"
    unfolding c_def .
  from v1 have v2: "validRng (\<lambda>n. g1 (n + 2))" by (rule validRng_shift)
  show ?thesis
  proof (cases large)
    case True
    with lp have lp': "useLargePool sc g = (True, g1)" by simp
    from randomShape_large [OF v1 lp'] have
      rs: "randomShape sc g =
             Inr (\<lparr>shape = SHAPES ! (LARGE_SHAPE_INDICES ! nat \<lfloor>fl (g1 0 * 13)\<rfloor>),
                    color = Tag (COLORS ! nat \<lfloor>fl (g1 1 * 5)\<rfloor>)\<rparr>, \<lambda>n. g1 (n + 2))"
      and k: "nat \<lfloor>fl (g1 0 * 13)\<rfloor> < 13" by simp_all
    from k have "LARGE_SHAPE_INDICES ! nat \<lfloor>fl (g1 0 * 13)\<rfloor> \<in> set LARGE_SHAPE_INDICES"
      by (intro nth_mem) (simp add: length_LARGE_SHAPE_INDICES)
    with large_indices_in_range
    have "LARGE_SHAPE_INDICES ! nat \<lfloor>fl (g1 0 * 13)\<rfloor> < length SHAPES" by blast
    then have "SHAPES ! (LARGE_SHAPE_INDICES ! nat \<lfloor>fl (g1 0 * 13)\<rfloor>) \<in> set SHAPES"
      by (rule nth_mem)
    with col have "blockOk \<lparr>shape = SHAPES ! (LARGE_SHAPE_INDICES ! nat \<lfloor>fl (g1 0 * 13)\<rfloor>),
                            color = Tag (COLORS ! nat \<lfloor>fl (g1 1 * 5)\<rfloor>)\<rparr>"
      by (simp add: blockOk_def)
    with rs v2 show ?thesis by blast
  next
    case False
    with lp have lp': "useLargePool sc g = (False, g1)" by simp
    from k have "nat k < 23" by simp
    then have "SHAPES ! nat k \<in> set SHAPES" by (rule nth_SHAPES_ok)
    then have "SHAPES ! nat \<lfloor>fl (g1 0 * 23)\<rfloor> \<in> set SHAPES" unfolding k_def .
    with col have "blockOk \<lparr>shape = SHAPES ! nat \<lfloor>fl (g1 0 * 23)\<rfloor>,
                            color = Tag (COLORS ! nat \<lfloor>fl (g1 1 * 5)\<rfloor>)\<rparr>"
      by (simp add: blockOk_def)
    with randomShape_full [OF v1 lp'] v2 show ?thesis by blast
  qed
qed

lemma randomShape_below_250:
  assumes sc: "sc < 250" and v: "validRng g"
  shows "randomShape sc g =
           Inr (\<lparr>shape = SHAPES ! nat \<lfloor>fl (g 0 * 23)\<rfloor>,
                  color = Tag (COLORS ! nat \<lfloor>fl (g 1 * 5)\<rfloor>)\<rparr>, \<lambda>n. g (n + 2))"
  using v useLargePool_below_250 [OF sc] by (rule randomShape_full)

lemma getThreeBlocks_below_250:
  assumes sc: "sc < 250" and v: "validRng g"
  shows "getThreeBlocks sc g =
           Inr ([\<lparr>shape = SHAPES ! nat \<lfloor>fl (g 0 * 23)\<rfloor>,
                    color = Tag (COLORS ! nat \<lfloor>fl (g 1 * 5)\<rfloor>)\<rparr>,
                 \<lparr>shape = SHAPES ! nat \<lfloor>fl (g 2 * 23)\<rfloor>,
                    color = Tag (COLORS ! nat \<lfloor>fl (g 3 * 5)\<rfloor>)\<rparr>,
                 \<lparr>shape = SHAPES ! nat \<lfloor>fl (g 4 * 23)\<rfloor>,
                    color = Tag (COLORS ! nat \<lfloor>fl (g 5 * 5)\<rfloor>)\<rparr>], \<lambda>n. g (n + 6))"
proof -
  from v have v2: "validRng (\<lambda>n. g (n + 2))" by (rule validRng_shift)
  from v have v4: "validRng (\<lambda>n. g (n + 4))" by (rule validRng_shift)
  from randomShape_below_250 [OF sc v] randomShape_below_250 [OF sc v2]
    randomShape_below_250 [OF sc v4]
  show ?thesis by (simp add: getThreeBlocks_def numeral_eq_Suc)
qed

lemma getThreeBlocks_valid:
  assumes "validRng g"
  shows "\<exists>bs g'. getThreeBlocks sc g = Inr (bs, g') \<and> length bs = 3 \<and> (\<forall>b \<in> set bs. blockOk b)"
proof -
  from randomShape_valid [OF assms, of sc] obtain b1 g1 where
    1: "randomShape sc g = Inr (b1, g1)" "blockOk b1" "validRng g1" by blast
  from randomShape_valid [OF 1(3), of sc] obtain b2 g2 where
    2: "randomShape sc g1 = Inr (b2, g2)" "blockOk b2" "validRng g2" by blast
  from randomShape_valid [OF 2(3), of sc] obtain b3 g3 where
    3: "randomShape sc g2 = Inr (b3, g3)" "blockOk b3" "validRng g3" by blast
  have "getThreeBlocks sc g = Inr ([b1, b2, b3], g3)"
    by (simp add: getThreeBlocks_def 1 2 3)
  with 1 2 3 show ?thesis by simp
qed

lemma refill_valid:
  "validRng g \<Longrightarrow> \<forall>b \<in> set bs. blockOk b \<Longrightarrow>
   \<exists>bs'. refill sc g bs = Inr bs' \<and> (\<forall>b \<in> set bs'. blockOk b)"
proof (induction sc g bs rule: refill.induct)
  case (1 sc g bs)
  show ?case
  proof (cases "length bs < 3")
    case False
    with "1.prems" show ?thesis by (simp add: refill.simps [of sc g bs])
  next
    case True
    from randomShape_valid [OF "1.prems"(1), of sc] obtain b g' where
      rs: "randomShape sc g = Inr (b, g')" and b: "blockOk b" and v: "validRng g'" by blast
    from b "1.prems"(2) have "\<forall>x \<in> set (bs @ [b]). blockOk x" by simp
    from "1.IH" [OF True rs refl v this] obtain bs' where
      "refill sc g' (bs @ [b]) = Inr bs'" "\<forall>b \<in> set bs'. blockOk b" by blast
    with True rs show ?thesis by (simp add: refill.simps [of sc g bs])
  qed
qed

text \<open>The loop stops at three blocks and keeps the ones it started with.\<close>

lemma refill_length:
  "refill sc g bs = Inr bs' \<Longrightarrow> length bs \<le> 3 \<Longrightarrow> length bs' = 3 \<and> take (length bs) bs' = bs"
proof (induction sc g bs rule: refill.induct)
  case (1 sc g bs)
  show ?case
  proof (cases "length bs < 3")
    case False
    with "1.prems" show ?thesis by (simp add: refill.simps [of sc g bs])
  next
    case True
    with "1.prems"(1) obtain b g' where
      rs: "randomShape sc g = Inr (b, g')" and rec: "refill sc g' (bs @ [b]) = Inr bs'"
      by (auto simp: refill.simps [of sc g bs] split: sum.splits)
    from True have "length (bs @ [b]) \<le> 3" by simp
    from "1.IH" [OF True rs refl rec this]
    have len: "length bs' = 3" and tk: "take (length (bs @ [b])) bs' = bs @ [b]" by simp_all
    from tk have "take (length bs) (take (length (bs @ [b])) bs') = take (length bs) (bs @ [b])"
      by simp
    then have "take (length bs) bs' = bs" by (simp add: min_def)
    with len show ?thesis by simp
  qed
qed

lemma refill_two:
  assumes "refill sc g bs = Inr bs'" and "length bs = 2"
  shows "\<exists>b g'. randomShape sc g = Inr (b, g') \<and> bs' = bs @ [b]"
proof -
  from assms obtain b g' where
    rs: "randomShape sc g = Inr (b, g')" and rec: "refill sc g' (bs @ [b]) = Inr bs'"
    by (auto simp: refill.simps [of sc g bs] split: sum.splits)
  from assms(2) have "\<not> length (bs @ [b]) < 3" by simp
  with rec have "bs' = bs @ [b]" by (simp add: refill.simps [of sc g' "bs @ [b]"])
  with rs show ?thesis by blast
qed

subsection \<open>The move\<close>

text \<open>The move once the three checks of line 173 have passed.\<close>

lemma tryPlaceBlock_unfold:
  assumes "\<not> gameOver s" and "0 \<le> i" and "i < int (length (currentBlocks s))"
  shows "tryPlaceBlock rnd s i row col =
     (case canPlace (grid s) (shape (currentBlocks s ! nat i))
             (color (currentBlocks s ! nat i)) row col of
        Inl e \<Rightarrow> Inl e
      | Inr ok \<Rightarrow>
         if \<not> ok then Inr (False, s)
         else
           (case placeBlock (grid s) (shape (currentBlocks s ! nat i))
                   (color (currentBlocks s ! nat i)) row col of
              Inl e \<Rightarrow> Inl e
            | Inr g1 \<Rightarrow>
               (case clearLines (s\<lparr>grid := g1, score := score s + 5\<rparr>) of
                  Inl e \<Rightarrow> Inl e
                | Inr (lc, s2) \<Rightarrow>
                   (case refill (score (afterClear lc s2)) rnd
                           (splice1 (currentBlocks (afterClear lc s2)) (nat i)) of
                      Inl e \<Rightarrow> Inl e
                    | Inr bs \<Rightarrow>
                       (case canPlaceAny
                               (grid ((afterClear lc s2)\<lparr>currentBlocks := bs\<rparr>))
                               (currentBlocks ((afterClear lc s2)\<lparr>currentBlocks := bs\<rparr>)) of
                          Inl e \<Rightarrow> Inl e
                        | Inr any \<Rightarrow>
                           Inr (True,
                             if \<not> any
                             then (afterClear lc s2)\<lparr>currentBlocks := bs, gameOver := True\<rparr>
                             else (afterClear lc s2)\<lparr>currentBlocks := bs\<rparr>))))))"
  using assms unfolding tryPlaceBlock_def Let_def afterClear_def [symmetric]
  by simp

lemma tryPlaceBlock_accepted:
  assumes "tryPlaceBlock rnd s i row col = Inr (True, s')"
  shows "\<not> gameOver s \<and> 0 \<le> i \<and> i < int (length (currentBlocks s)) \<and>
    canPlace (grid s) (shape (currentBlocks s ! nat i)) (color (currentBlocks s ! nat i)) row col
      = Inr True \<and>
    (\<exists>g1 lc s2 bs any.
       placeBlock (grid s) (shape (currentBlocks s ! nat i)) (color (currentBlocks s ! nat i)) row col
         = Inr g1 \<and>
       clearLines (s\<lparr>grid := g1, score := score s + 5\<rparr>) = Inr (lc, s2) \<and>
       refill (score (afterClear lc s2)) rnd
         (splice1 (currentBlocks (afterClear lc s2)) (nat i)) = Inr bs \<and>
       canPlaceAny (grid (afterClear lc s2)) bs = Inr any \<and>
       s' = (if \<not> any then (afterClear lc s2)\<lparr>currentBlocks := bs, gameOver := True\<rparr>
             else (afterClear lc s2)\<lparr>currentBlocks := bs\<rparr>))"
proof -
  let ?b = "currentBlocks s ! nat i"
  have guard: "\<not> (gameOver s \<or> i < 0 \<or> i \<ge> int (length (currentBlocks s)))"
  proof
    assume "gameOver s \<or> i < 0 \<or> i \<ge> int (length (currentBlocks s))"
    then have "tryPlaceBlock rnd s i row col = Inr (False, s)"
      by (simp add: tryPlaceBlock_def)
    with assms show False by simp
  qed
  from guard have unfold: "tryPlaceBlock rnd s i row col =
     (case canPlace (grid s) (shape ?b) (color ?b) row col of
        Inl e \<Rightarrow> Inl e
      | Inr ok \<Rightarrow>
         if \<not> ok then Inr (False, s)
         else
           (case placeBlock (grid s) (shape ?b) (color ?b) row col of
              Inl e \<Rightarrow> Inl e
            | Inr g1 \<Rightarrow>
               (case clearLines (s\<lparr>grid := g1, score := score s + 5\<rparr>) of
                  Inl e \<Rightarrow> Inl e
                | Inr (lc, s2) \<Rightarrow>
                   (case refill (score (afterClear lc s2)) rnd
                           (splice1 (currentBlocks (afterClear lc s2)) (nat i)) of
                      Inl e \<Rightarrow> Inl e
                    | Inr bs \<Rightarrow>
                       (case canPlaceAny
                               (grid ((afterClear lc s2)\<lparr>currentBlocks := bs\<rparr>))
                               (currentBlocks ((afterClear lc s2)\<lparr>currentBlocks := bs\<rparr>)) of
                          Inl e \<Rightarrow> Inl e
                        | Inr any \<Rightarrow>
                           Inr (True,
                             if \<not> any
                             then (afterClear lc s2)\<lparr>currentBlocks := bs, gameOver := True\<rparr>
                             else (afterClear lc s2)\<lparr>currentBlocks := bs\<rparr>))))))"
    using tryPlaceBlock_unfold [of s i rnd row col] by simp
  from assms obtain ok where cp: "canPlace (grid s) (shape ?b) (color ?b) row col = Inr ok"
    unfolding unfold by (cases "canPlace (grid s) (shape ?b) (color ?b) row col") simp_all
  with assms have ok: "ok" unfolding unfold by (cases ok) simp_all
  from assms cp ok obtain g1 where pb: "placeBlock (grid s) (shape ?b) (color ?b) row col = Inr g1"
    unfolding unfold by (cases "placeBlock (grid s) (shape ?b) (color ?b) row col") simp_all
  from assms cp ok pb obtain lc s2 where
    cl: "clearLines (s\<lparr>grid := g1, score := score s + 5\<rparr>) = Inr (lc, s2)"
    unfolding unfold
    by (cases "clearLines (s\<lparr>grid := g1, score := score s + 5\<rparr>)") auto
  from assms cp ok pb cl obtain bs where
    rf: "refill (score (afterClear lc s2)) rnd
           (splice1 (currentBlocks (afterClear lc s2)) (nat i)) = Inr bs"
    unfolding unfold
    by (cases "refill (score (afterClear lc s2)) rnd
           (splice1 (currentBlocks (afterClear lc s2)) (nat i))") simp_all
  from assms cp ok pb cl rf obtain any where
    ca: "canPlaceAny (grid (afterClear lc s2)) bs = Inr any"
    unfolding unfold
    by (cases "canPlaceAny (grid (afterClear lc s2)) bs") simp_all
  from assms cp ok pb cl rf ca
  have "s' = (if \<not> any then (afterClear lc s2)\<lparr>currentBlocks := bs, gameOver := True\<rparr>
             else (afterClear lc s2)\<lparr>currentBlocks := bs\<rparr>)"
    unfolding unfold by (simp split: if_splits)
  with guard cp ok pb cl rf ca show ?thesis by auto
qed

lemma tryPlaceBlock_rejected:
  assumes "tryPlaceBlock rnd s i row col = Inr (False, s')"
  shows "s' = s"
proof (cases "gameOver s \<or> i < 0 \<or> i \<ge> int (length (currentBlocks s))")
  case True
  with assms show ?thesis by (simp add: tryPlaceBlock_def)
next
  case False
  let ?b = "currentBlocks s ! nat i"
  show ?thesis
  proof (cases "canPlace (grid s) (shape ?b) (color ?b) row col")
    case (Inl e)
    with assms False show ?thesis by (simp add: tryPlaceBlock_def)
  next
    case (Inr ok)
    show ?thesis
    proof (cases ok)
      case False
      with assms Inr \<open>\<not> (gameOver s \<or> i < 0 \<or> i \<ge> int (length (currentBlocks s)))\<close>
      show ?thesis by (simp add: tryPlaceBlock_def)
    next
      case True
      with assms Inr False have False
        by (simp add: tryPlaceBlock_def Let_def split: sum.splits prod.splits)
      then show ?thesis ..
    qed
  qed
qed

lemma afterClear_fields [simp]:
  "grid (afterClear lc s) = grid s" "currentBlocks (afterClear lc s) = currentBlocks s"
  "score (afterClear lc s) = score s" "gameOver (afterClear lc s) = gameOver s"
  by (simp_all add: afterClear_def noClearThisMove_def)

lemma set_splice1: "set (splice1 xs i) \<subseteq> set xs"
  by (auto simp: splice1_def dest: in_set_takeD in_set_dropD)

lemma length_splice1: "i < length xs \<Longrightarrow> length (splice1 xs i) = length xs - 1"
  by (auto simp: splice1_def)

text \<open>After an accepted move no line is full.\<close>

lemma accepted_no_full_line:
  assumes "tryPlaceBlock rnd s i row col = Inr (True, s')"
  shows "\<not> (\<exists>r < ROWS. \<forall>c < COLS. occupied (grid s') r c) \<and>
         \<not> (\<exists>c < COLS. \<forall>r < ROWS. occupied (grid s') r c)"
proof -
  from tryPlaceBlock_accepted [OF assms] obtain g1 lc s2 bs any where
    cl: "clearLines (s\<lparr>grid := g1, score := score s + 5\<rparr>) = Inr (lc, s2)" and
    s': "s' = (if \<not> any then (afterClear lc s2)\<lparr>currentBlocks := bs, gameOver := True\<rparr>
             else (afterClear lc s2)\<lparr>currentBlocks := bs\<rparr>)"
    by blast
  from s' have "grid s' = grid s2" by simp
  with clearLines_no_full_line [OF cl] show ?thesis by auto
qed

subsection \<open>Reachable states\<close>

text \<open>Every reachable state is well-formed: the grid is 8 by 8 with cells \<^verbatim>\<open>0\<close> or a colour,
  and there are three blocks, each a catalog shape in a palette colour.\<close>

lemma gridOk_initGrid: "gridOk initGrid"
  by (simp add: gridOk_iff initGrid_def)

lemma blockOk_color: "blockOk b \<Longrightarrow> truthy (color b)"
  by (auto simp: blockOk_def COLORS_def)

lemma blockOk_shape: "blockOk b \<Longrightarrow> shape b \<noteq> []"
  using catalog_shape by (auto simp: blockOk_def)

lemma initState_ok:
  assumes "validRng g" and "initState g = Inr s"
  shows "stateOk s"
proof -
  from getThreeBlocks_valid [OF assms(1), of 0] obtain bs g' where
    "getThreeBlocks 0 g = Inr (bs, g')" "length bs = 3" "\<forall>b \<in> set bs. blockOk b" by blast
  with assms(2) show ?thesis
    by (auto simp: initState_def stateOk_def gridOk_initGrid list_all_iff)
qed

lemma doRestart_ok:
  assumes "validRng g" and "doRestart g s = Inr s'"
  shows "stateOk s'"
proof -
  from getThreeBlocks_valid [OF assms(1), of "score s"] obtain bs g' where
    "getThreeBlocks (score s) g = Inr (bs, g')" "length bs = 3" "\<forall>b \<in> set bs. blockOk b"
    by blast
  with assms(2) show ?thesis
    by (auto simp: doRestart_def stateOk_def gridOk_initGrid list_all_iff)
qed

lemma accepted_ok:
  assumes ok: "stateOk s" and v: "validRng rnd"
    and acc: "tryPlaceBlock rnd s i row col = Inr (True, s')"
  shows "stateOk s'"
proof -
  let ?b = "currentBlocks s ! nat i"
  from tryPlaceBlock_accepted [OF acc] obtain g1 lc s2 bs any where
    i: "0 \<le> i" "i < int (length (currentBlocks s))" and
    pb: "placeBlock (grid s) (shape ?b) (color ?b) row col = Inr g1" and
    cl: "clearLines (s\<lparr>grid := g1, score := score s + 5\<rparr>) = Inr (lc, s2)" and
    rf: "refill (score (afterClear lc s2)) rnd
           (splice1 (currentBlocks (afterClear lc s2)) (nat i)) = Inr bs" and
    s': "s' = (if \<not> any then (afterClear lc s2)\<lparr>currentBlocks := bs, gameOver := True\<rparr>
             else (afterClear lc s2)\<lparr>currentBlocks := bs\<rparr>)"
    by blast
  from ok have gok: "gridOk (grid s)" and len: "length (currentBlocks s) = 3"
    and bok: "\<forall>b \<in> set (currentBlocks s). blockOk b"
    by (simp_all add: stateOk_def list_all_iff)
  from i have ni: "nat i < length (currentBlocks s)" by simp
  with bok have "blockOk ?b" by simp
  then have "truthy (color ?b)" by (rule blockOk_color)
  from placeBlock_gridOk [OF pb gok this] have "gridOk g1" .
  with clearLines_gridOk [OF cl] have g2: "gridOk (grid s2)" by simp
  from clearLines_fields [OF cl] have cb: "currentBlocks s2 = currentBlocks s" by simp
  from rf cb have rf': "refill (score s2) rnd (splice1 (currentBlocks s) (nat i)) = Inr bs"
    by simp
  from len ni have "length (splice1 (currentBlocks s) (nat i)) \<le> 3"
    by (simp add: length_splice1)
  from refill_length [OF rf' this] have lbs: "length bs = 3" by simp
  from bok set_splice1 [of "currentBlocks s" "nat i"]
  have "\<forall>b \<in> set (splice1 (currentBlocks s) (nat i)). blockOk b" by blast
  from refill_valid [OF v this, of "score s2"] rf' have "\<forall>b \<in> set bs. blockOk b" by auto
  with g2 lbs show ?thesis unfolding s' by (simp add: stateOk_def list_all_iff)
qed

lemma tryPlaceBlock_ok:
  assumes "stateOk s" and "validRng rnd" and "tryPlaceBlock rnd s i row col = Inr (a, s')"
  shows "stateOk s'"
proof (cases a)
  case True
  with assms(3) have "tryPlaceBlock rnd s i row col = Inr (True, s')" by simp
  from accepted_ok [OF assms(1,2) this] show ?thesis .
next
  case False
  with assms(3) have "tryPlaceBlock rnd s i row col = Inr (False, s')" by simp
  from tryPlaceBlock_rejected [OF this] assms(1) show ?thesis by simp
qed

lemma reachable_ok: "reachable s \<Longrightarrow> stateOk s"
proof (induction rule: reachable.induct)
  case (start g s)
  then show ?case by (rule initState_ok)
next
  case (restart s g s')
  then show ?case using doRestart_ok by blast
next
  case (move s g i row col ok s')
  then show ?case using tryPlaceBlock_ok by blast
next
  case (select s k)
  then show ?case by (simp add: stateOk_def)
next
  case (drag s k)
  then show ?case by (simp add: stateOk_def)
qed

text \<open>In a well-formed state an accepted move always completes.\<close>

lemma accepted_total:
  assumes ok: "stateOk s" and v: "validRng rnd" and go: "\<not> gameOver s"
    and i: "0 \<le> i" "i < int (length (currentBlocks s))"
    and cp: "canPlace (grid s) (shape (currentBlocks s ! nat i))
               (color (currentBlocks s ! nat i)) row col = Inr True"
  shows "\<exists>s'. tryPlaceBlock rnd s i row col = Inr (True, s')"
proof -
  let ?b = "currentBlocks s ! nat i"
  from ok have gok: "gridOk (grid s)" and len: "length (currentBlocks s) = 3"
    and bok: "\<forall>b \<in> set (currentBlocks s). blockOk b"
    by (simp_all add: stateOk_def list_all_iff)
  from i have ni: "nat i < length (currentBlocks s)" by simp
  with bok have "blockOk ?b" by simp
  then have tr: "truthy (color ?b)" by (rule blockOk_color)
  from canPlace_then_placeBlock [OF cp] obtain g1 where
    pb: "placeBlock (grid s) (shape ?b) (color ?b) row col = Inr g1" by blast
  from placeBlock_gridOk [OF pb gok tr] have g1: "gridOk g1" .
  then have "ROWS \<le> length (grid (s\<lparr>grid := g1, score := score s + 5\<rparr>))"
    by (simp add: gridOk_iff)
  from clearLines_unfold [OF this] obtain lc s2 where
    cl: "clearLines (s\<lparr>grid := g1, score := score s + 5\<rparr>) = Inr (lc, s2)" by blast
  from clearLines_gridOk [OF cl] g1 have g2: "gridOk (grid s2)" by simp
  from clearLines_fields [OF cl] have cb: "currentBlocks s2 = currentBlocks s" by simp
  from bok set_splice1 [of "currentBlocks s" "nat i"]
  have "\<forall>b \<in> set (splice1 (currentBlocks s) (nat i)). blockOk b" by blast
  from refill_valid [OF v this, of "score s2"] obtain bs where
    rf: "refill (score s2) rnd (splice1 (currentBlocks s2) (nat i)) = Inr bs" and
    bs: "\<forall>b \<in> set bs. blockOk b"
    by (auto simp: cb)
  from bs have "\<forall>b \<in> set bs. shape b \<noteq> []" using blockOk_shape by blast
  moreover from g2 have "ROWS \<le> length (grid s2)" by (simp add: gridOk_iff)
  ultimately obtain any where ca: "canPlaceAny (grid s2) bs = Inr any"
    using canPlaceAny_char by blast
  show ?thesis
    unfolding tryPlaceBlock_unfold [OF go i] by (simp add: cp pb cl rf ca)
qed

text \<open>So an exception can only come from \<^verbatim>\<open>canPlace\<close>, and then nothing has been written.\<close>

lemma throws_only_in_canPlace:
  assumes ok: "stateOk s" and v: "validRng rnd"
    and thr: "tryPlaceBlock rnd s i row col = Inl e"
  shows "\<not> gameOver s \<and> 0 \<le> i \<and> i < int (length (currentBlocks s)) \<and>
         canPlace (grid s) (shape (currentBlocks s ! nat i))
           (color (currentBlocks s ! nat i)) row col = Inl e"
proof -
  let ?b = "currentBlocks s ! nat i"
  have guard: "\<not> gameOver s" "0 \<le> i" "i < int (length (currentBlocks s))"
    using thr by (auto simp: tryPlaceBlock_def split: if_splits)
  show ?thesis
  proof (cases "canPlace (grid s) (shape ?b) (color ?b) row col")
    case (Inl e')
    with thr guard show ?thesis by (simp add: tryPlaceBlock_unfold)
  next
    case (Inr fits)
    show ?thesis
    proof (cases fits)
      case True
      with Inr have "canPlace (grid s) (shape ?b) (color ?b) row col = Inr True" by simp
      from accepted_total [OF ok v guard this] thr show ?thesis by simp
    next
      case False
      with Inr thr guard show ?thesis by (simp add: tryPlaceBlock_unfold)
    qed
  qed
qed

text \<open>In a move from a reachable state the grid given to \<^verbatim>\<open>clearLines\<close> is well-formed.\<close>

lemma move_grid_ok:
  assumes "reachable s" and "0 \<le> i" and "i < int (length (currentBlocks s))"
    and "placeBlock (grid s) (shape (currentBlocks s ! nat i))
           (color (currentBlocks s ! nat i)) row col = Inr g1"
  shows "gridOk g1"
proof -
  from reachable_ok [OF assms(1)] have gok: "gridOk (grid s)"
    and bok: "\<forall>b \<in> set (currentBlocks s). blockOk b"
    by (simp_all add: stateOk_def list_all_iff)
  from assms(2,3) have "nat i < length (currentBlocks s)" by simp
  with bok have "blockOk (currentBlocks s ! nat i)" by simp
  then have "truthy (color (currentBlocks s ! nat i))" by (rule blockOk_color)
  from placeBlock_gridOk [OF assms(4) gok this] show ?thesis .
qed

text \<open>No line is full in a reachable state.\<close>

lemma initGrid_no_full_line:
  "\<not> (\<exists>r < ROWS. \<forall>c < COLS. occupied initGrid r c) \<and>
   \<not> (\<exists>c < COLS. \<forall>r < ROWS. occupied initGrid r c)"
proof -
  have "0 < ROWS" "0 < COLS" by (simp_all add: ROWS_def COLS_def)
  moreover have "\<not> occupied initGrid r c" if "r < ROWS" "c < COLS" for r c
    using that by (simp add: occupied_def initGrid_def)
  ultimately show ?thesis by blast
qed

lemma reachable_no_full_line:
  "reachable s \<Longrightarrow>
   \<not> (\<exists>r < ROWS. \<forall>c < COLS. occupied (grid s) r c) \<and>
   \<not> (\<exists>c < COLS. \<forall>r < ROWS. occupied (grid s) r c)"
proof (induction rule: reachable.induct)
  case (start g s)
  then have "grid s = initGrid" by (auto simp: initState_def split: sum.splits)
  with initGrid_no_full_line show ?case by simp
next
  case (restart s g s')
  then have "grid s' = initGrid" by (auto simp: doRestart_def split: sum.splits)
  with initGrid_no_full_line show ?case by simp
next
  case (move s g i row col ok s')
  show ?case
  proof (cases ok)
    case True
    with move.hyps(3) have "tryPlaceBlock g s i row col = Inr (True, s')" by simp
    then show ?thesis by (rule accepted_no_full_line)
  next
    case False
    with move.hyps(3) have "tryPlaceBlock g s i row col = Inr (False, s')" by simp
    from tryPlaceBlock_rejected [OF this] move.IH show ?thesis by simp
  qed
next
  case (select s k)
  then show ?case by simp
next
  case (drag s k)
  then show ?case by simp
qed

subsection \<open>The example inputs\<close>

lemma rngZero_valid: "validRng rngZero"
  by (simp add: validRng_def rngZero_def)

lemma rngHigh_valid: "validRng rngHigh"
  by (simp add: validRng_def rngHigh_def)

lemma rngSeq_valid: "validRng rngSeq"
proof -
  have "real (n mod 6) / 8 \<le> 1 - 1 / 2 ^ 53" for n
  proof -
    have "n mod 6 < 6" by simp
    then have "real (n mod 6) \<le> 6" by simp
    then show ?thesis by simp
  qed
  then show ?thesis by (simp add: validRng_def rngSeq_def)
qed


lemma catalog_entries:
  "\<lparr>shape = SHAPES ! 0, color = Tag (COLORS ! 0)\<rparr> = unitBlock \<and>
   \<lparr>shape = SHAPES ! 5, color = Tag (COLORS ! 1)\<rparr> = barBlock \<and>
   \<lparr>shape = SHAPES ! 11, color = Tag (COLORS ! 3)\<rparr> = hookBlock \<and>
   \<lparr>shape = SHAPES ! 22, color = Tag (COLORS ! 4)\<rparr> = bigBlock"
  by code_simp

lemma rngZero_draws: "nat \<lfloor>fl (rngZero 0 * 23)\<rfloor> = 0 \<and> nat \<lfloor>fl (rngZero 1 * 5)\<rfloor> = 0"
  by code_simp

lemma rngHigh_draws: "nat \<lfloor>fl (rngHigh 0 * 23)\<rfloor> = 22 \<and> nat \<lfloor>fl (rngHigh 1 * 5)\<rfloor> = 4"
  by code_simp

lemma rngSeq_draws:
  "nat \<lfloor>fl (rngSeq 0 * 23)\<rfloor> = 0 \<and> nat \<lfloor>fl (rngSeq 1 * 5)\<rfloor> = 0 \<and>
   nat \<lfloor>fl (rngSeq 2 * 23)\<rfloor> = 5 \<and> nat \<lfloor>fl (rngSeq 3 * 5)\<rfloor> = 1 \<and>
   nat \<lfloor>fl (rngSeq 4 * 23)\<rfloor> = 11 \<and> nat \<lfloor>fl (rngSeq 5 * 5)\<rfloor> = 3"
  by code_simp

lemma randomShape_rngZero: "randomShape 0 rngZero = Inr (unitBlock, rngZero)"
proof -
  have "randomShape 0 rngZero =
      Inr (\<lparr>shape = SHAPES ! nat \<lfloor>fl (rngZero 0 * 23)\<rfloor>,
             color = Tag (COLORS ! nat \<lfloor>fl (rngZero 1 * 5)\<rfloor>)\<rparr>, \<lambda>n. rngZero (n + 2))"
    by (rule randomShape_below_250 [OF _ rngZero_valid]) simp
  also have "(\<lambda>n. rngZero (n + 2)) = rngZero" by (simp add: rngZero_def)
  finally show ?thesis by (simp only: rngZero_draws catalog_entries)
qed

lemma randomShape_rngHigh: "sc < 250 \<Longrightarrow> randomShape sc rngHigh = Inr (bigBlock, rngHigh)"
proof -
  assume "sc < 250"
  then have "randomShape sc rngHigh =
      Inr (\<lparr>shape = SHAPES ! nat \<lfloor>fl (rngHigh 0 * 23)\<rfloor>,
             color = Tag (COLORS ! nat \<lfloor>fl (rngHigh 1 * 5)\<rfloor>)\<rparr>, \<lambda>n. rngHigh (n + 2))"
    using rngHigh_valid by (rule randomShape_below_250)
  also have "(\<lambda>n. rngHigh (n + 2)) = rngHigh" by (simp add: rngHigh_def)
  finally show ?thesis by (simp only: rngHigh_draws catalog_entries)
qed

lemma initState_rngZero: "initState rngZero = Inr stateA"
  by (simp add: initState_def getThreeBlocks_def randomShape_rngZero stateA_def)

lemma initState_rngSeq: "initState rngSeq = Inr stateM"
proof -
  have "getThreeBlocks 0 rngSeq =
      Inr ([\<lparr>shape = SHAPES ! nat \<lfloor>fl (rngSeq 0 * 23)\<rfloor>,
               color = Tag (COLORS ! nat \<lfloor>fl (rngSeq 1 * 5)\<rfloor>)\<rparr>,
            \<lparr>shape = SHAPES ! nat \<lfloor>fl (rngSeq 2 * 23)\<rfloor>,
               color = Tag (COLORS ! nat \<lfloor>fl (rngSeq 3 * 5)\<rfloor>)\<rparr>,
            \<lparr>shape = SHAPES ! nat \<lfloor>fl (rngSeq 4 * 23)\<rfloor>,
               color = Tag (COLORS ! nat \<lfloor>fl (rngSeq 5 * 5)\<rfloor>)\<rparr>], \<lambda>n. rngSeq (n + 6))"
    by (rule getThreeBlocks_below_250 [OF _ rngSeq_valid]) simp
  then have "getThreeBlocks 0 rngSeq = Inr ([unitBlock, barBlock, hookBlock], \<lambda>n. rngSeq (n + 6))"
    by (simp only: rngSeq_draws catalog_entries)
  then show ?thesis by (simp add: initState_def stateM_def)
qed

lemma reachable_stateA: "reachable stateA"
  using rngZero_valid initState_rngZero by (rule reachable.start)

lemma reachable_stateM: "reachable stateM"
  using rngSeq_valid initState_rngSeq by (rule reachable.start)

lemma moveA_eval:
  "case tryPlaceBlock rngZero stateA 0 0 0 of Inr (a, s') \<Rightarrow> a | Inl e \<Rightarrow> False"
  by code_simp

lemma moveB_eval:
  "case tryPlaceBlock rngZero stateB 0 0 7 of
     Inr (a, s') \<Rightarrow> a \<and> score s' = 157 \<and> streak s' = 3 | Inl e \<Rightarrow> False"
  by code_simp

lemma placeB_eval:
  "case placeBlock (grid stateB) (shape (currentBlocks stateB ! nat 0))
          (color (currentBlocks stateB ! nat 0)) 0 7 of
     Inr g1 \<Rightarrow> (case clearLines (stateB\<lparr>grid := g1, score := score stateB + 5\<rparr>) of
                  Inr (lc, s2) \<Rightarrow> count lc = 1 \<and> rows lc = [0] \<and> cols lc = []
                | Inl e \<Rightarrow> False)
   | Inl e \<Rightarrow> False"
  by code_simp

lemma moveB_noclear_eval:
  "case tryPlaceBlock rngZero stateB 0 1 0 of Inr (a, s') \<Rightarrow> a | Inl e \<Rightarrow> False"
  by code_simp

lemma placeB_noclear_eval:
  "case placeBlock (grid stateB) (shape (currentBlocks stateB ! nat 0))
          (color (currentBlocks stateB ! nat 0)) 1 0 of
     Inr g1 \<Rightarrow> (case clearLines (stateB\<lparr>grid := g1, score := score stateB + 5\<rparr>) of
                  Inr (lc, s2) \<Rightarrow> count lc = 0
                | Inl e \<Rightarrow> False)
   | Inl e \<Rightarrow> False"
  by code_simp

lemma moveG_eval:
  "case tryPlaceBlock rngHigh stateG 0 0 0 of
     Inr (a, s') \<Rightarrow> a \<and> gameOver s' \<and> currentBlocks s' = [bigBlock, bigBlock, bigBlock]
   | Inl e \<Rightarrow> False"
  by code_simp

lemma moveA_again_eval:
  "case tryPlaceBlock rngZero stateA 0 0 0 of
     Inr (a, s1) \<Rightarrow>
       a \<and> length (currentBlocks s1) = 3 \<and>
       canPlace (grid s1) (shape (currentBlocks s1 ! nat 0))
         (color (currentBlocks s1 ! nat 0)) 0 0 = Inr False
   | Inl e \<Rightarrow> False"
  by code_simp

lemma moveA_negative_row_eval:
  "case tryPlaceBlock rngZero stateA 0 (- 1) 0 of Inl e \<Rightarrow> True | Inr x \<Rightarrow> False"
  by code_simp

lemma moveM_eval:
  "case tryPlaceBlock rngHigh stateM 1 0 0 of
     Inr (a, s') \<Rightarrow> a \<and> score s' = 5
   | Inl e \<Rightarrow> False"
  by code_simp

lemma gridOk_crossGrid: "gridOk (grid (stateA\<lparr>grid := crossGrid\<rparr>))"
  by code_simp

lemma clear_crossGrid:
  "case clearLines (stateA\<lparr>grid := crossGrid\<rparr>) of
     Inr (lc, s') \<Rightarrow> rows lc = [0] \<and> cols lc = [0] | Inl e \<Rightarrow> False"
  by code_simp

section \<open>The claims\<close>

subsection \<open>C1: the score of a move that clears lines\<close>

text \<open>
  C1. In every move accepted by \<open>tryPlaceBlock\<close> the block is placed and \<open>clearLines\<close> runs
  on the grid with the block and the score with its 5 points; its count is the number
  of cleared rows plus the number of cleared columns. When the count is at least 1, the
  score of the move is
  \<open>5 + count * 10 + 2 ^ count + (if streak s > 0 then streak s * 20 else 0)\<close> with the
  streak \<open>streak s\<close> from before the move, the streak goes up by one and the combo is the
  count.
\<close>

theorem score_delta:
  assumes acc: "tryPlaceBlock rnd s i row col = Inr (True, s')"
  shows "\<exists>g1 lc s2.
     placeBlock (grid s) (shape (currentBlocks s ! nat i))
       (color (currentBlocks s ! nat i)) row col = Inr g1 \<and>
     clearLines (s\<lparr>grid := g1, score := score s + 5\<rparr>) = Inr (lc, s2) \<and>
     count lc = length (rows lc) + length (cols lc) \<and>
     (1 \<le> count lc \<longrightarrow>
        score s' - score s =
          5 + int (count lc) * 10 + 2 ^ count lc
            + (if streak s > 0 then streak s * 20 else 0) \<and>
        streak s' = streak s + 1 \<and> combo s' = int (count lc))"
proof -
  from tryPlaceBlock_accepted [OF acc] obtain g1 lc s2 bs any where
    pb: "placeBlock (grid s) (shape (currentBlocks s ! nat i))
           (color (currentBlocks s ! nat i)) row col = Inr g1" and
    cl: "clearLines (s\<lparr>grid := g1, score := score s + 5\<rparr>) = Inr (lc, s2)" and
    s': "s' = (if \<not> any then (afterClear lc s2)\<lparr>currentBlocks := bs, gameOver := True\<rparr>
             else (afterClear lc s2)\<lparr>currentBlocks := bs\<rparr>)"
    by blast
  from clearLines_fields [OF cl]
  have sum: "count lc = length (rows lc) + length (cols lc)" by simp
  have "score s' - score s =
          5 + int (count lc) * 10 + 2 ^ count lc
            + (if streak s > 0 then streak s * 20 else 0) \<and>
        streak s' = streak s + 1 \<and> combo s' = int (count lc)"
    if cnt: "1 \<le> count lc"
  proof -
    from cnt have ac: "afterClear lc s2 = s2" by (simp add: afterClear_def)
    from clearLines_fields [OF cl] cnt
    have "score s2 = score s + 5 + (int (count lc) * 10 + 2 ^ count lc
                                    + (if streak s > 0 then streak s * 20 else 0))"
      and "combo s2 = int (count lc)" and "streak s2 = streak s + 1"
      by simp_all
    then show ?thesis unfolding s' ac by simp
  qed
  with pb cl sum show ?thesis by blast
qed

theorem score_delta_witness:
  "\<exists>s' g1 lc s2.
     tryPlaceBlock rngZero stateB 0 0 7 = Inr (True, s') \<and>
     placeBlock (grid stateB) (shape (currentBlocks stateB ! nat 0))
       (color (currentBlocks stateB ! nat 0)) 0 7 = Inr g1 \<and>
     clearLines (stateB\<lparr>grid := g1, score := score stateB + 5\<rparr>) = Inr (lc, s2) \<and>
     count lc = 1 \<and> rows lc = [0] \<and> cols lc = [] \<and> streak stateB = 2 \<and>
     score s' - score stateB = 5 + 10 + 2 + 40 \<and> streak s' = 3 \<and> combo s' = 1"
proof -
  from moveB_eval obtain s' where
    acc: "tryPlaceBlock rngZero stateB 0 0 7 = Inr (True, s')"
    by (auto split: sum.splits)
  from score_delta [OF acc] obtain g1 lc s2 where
    pb: "placeBlock (grid stateB) (shape (currentBlocks stateB ! nat 0))
           (color (currentBlocks stateB ! nat 0)) 0 7 = Inr g1" and
    cl: "clearLines (stateB\<lparr>grid := g1, score := score stateB + 5\<rparr>) = Inr (lc, s2)" and
    delta: "1 \<le> count lc \<longrightarrow>
        score s' - score stateB =
          5 + int (count lc) * 10 + 2 ^ count lc
            + (if streak stateB > 0 then streak stateB * 20 else 0) \<and>
        streak s' = streak stateB + 1 \<and> combo s' = int (count lc)"
    by blast
  from placeB_eval pb cl have cnt: "count lc = 1" "rows lc = [0]" "cols lc = []"
    by simp_all
  have st: "streak stateB = 2" by (simp add: stateB_def)
  from delta cnt st
  have "score s' - score stateB = 5 + 10 + 2 + 40 \<and> streak s' = 3 \<and> combo s' = 1"
    by simp
  with acc pb cl cnt st show ?thesis by blast
qed

subsection \<open>C2: which lines are cleared\<close>

text \<open>
  C2. On a well-formed grid \<open>clearLines\<close> returns, the rows it clears are exactly the rows
  whose 8 cells were all occupied in the grid it was given, the columns it clears are
  exactly the columns whose 8 cells were all occupied in that same grid, and afterwards
  every cell of a cleared row or column is \<open>Zero\<close>, the intersections included; the other
  cells keep their value.
\<close>

theorem clear_correct:
  assumes ok: "gridOk (grid s)"
  shows "\<exists>lc s'. clearLines s = Inr (lc, s') \<and>
     set (rows lc) = {r. r < ROWS \<and> (\<forall>c < COLS. occupied (grid s) r c)} \<and>
     set (cols lc) = {c. c < COLS \<and> (\<forall>r < ROWS. occupied (grid s) r c)} \<and>
     (\<forall>r < ROWS. \<forall>c < COLS.
        (grid s' ! r) (int c) =
          (if r \<in> set (rows lc) \<or> c \<in> set (cols lc) then Zero else (grid s ! r) (int c)))"
proof -
  from ok have len: "length (grid s) = ROWS" by (simp add: gridOk_iff)
  then have "ROWS \<le> length (grid s)" by simp
  from clearLines_unfold [OF this] obtain lc s' where
    cl: "clearLines s = Inr (lc, s')" by blast
  from clearLines_result [OF cl] have
    rs: "rows lc = filter (rowFull (grid s)) [0..<ROWS]" and
    cs: "cols lc = filter (colFull (grid s)) [0..<COLS]" and
    g': "grid s' = fold clearCol (cols lc) (fold clearRow (rows lc) (grid s))"
    by simp_all
  have rows: "set (rows lc) = {r. r < ROWS \<and> (\<forall>c < COLS. occupied (grid s) r c)}"
    unfolding rs using gridOk_full_agree [OF ok] by auto
  have cols: "set (cols lc) = {c. c < COLS \<and> (\<forall>r < ROWS. occupied (grid s) r c)}"
    unfolding cs by (auto simp: colFull_iff occupied_def)
  have cells: "(grid s' ! r) (int c) =
          (if r \<in> set (rows lc) \<or> c \<in> set (cols lc) then Zero else (grid s ! r) (int c))"
    if "r < ROWS" and "c < COLS" for r c
  proof -
    from that len have "r < length (grid s)" by simp
    from cleared_grid_nth [OF this, of "cols lc" "rows lc" "int c"] that
    show ?thesis unfolding g' by auto
  qed
  from cl rows cols cells show ?thesis by blast
qed

theorem clear_correct_witness:
  "gridOk (grid (stateA\<lparr>grid := crossGrid\<rparr>)) \<and>
   (\<exists>lc s'. clearLines (stateA\<lparr>grid := crossGrid\<rparr>) = Inr (lc, s') \<and>
      rows lc = [0] \<and> cols lc = [0] \<and>
      {r. r < ROWS \<and> (\<forall>c < COLS. occupied crossGrid r c)} = {0} \<and>
      {c. c < COLS \<and> (\<forall>r < ROWS. occupied crossGrid r c)} = {0} \<and>
      (grid s' ! 0) (int 0) = Zero \<and> (grid s' ! 0) (int 5) = Zero \<and>
      (grid s' ! 5) (int 0) = Zero)"
proof -
  have g: "grid (stateA\<lparr>grid := crossGrid\<rparr>) = crossGrid" by simp
  from clear_correct [OF gridOk_crossGrid, unfolded g] obtain lc s' where
    cl: "clearLines (stateA\<lparr>grid := crossGrid\<rparr>) = Inr (lc, s')" and
    rs: "set (rows lc) = {r. r < ROWS \<and> (\<forall>c < COLS. occupied crossGrid r c)}" and
    cs: "set (cols lc) = {c. c < COLS \<and> (\<forall>r < ROWS. occupied crossGrid r c)}" and
    cells: "\<forall>r < ROWS. \<forall>c < COLS.
        (grid s' ! r) (int c) =
          (if r \<in> set (rows lc) \<or> c \<in> set (cols lc) then Zero else (crossGrid ! r) (int c))"
    by blast
  from clear_crossGrid cl have lc: "rows lc = [0]" "cols lc = [0]" by simp_all
  have "(grid s' ! 0) (int 0) = Zero" "(grid s' ! 0) (int 5) = Zero"
    "(grid s' ! 5) (int 0) = Zero"
    using cells [rule_format, of 0 0] cells [rule_format, of 0 5] cells [rule_format, of 5 0] lc
    by (simp_all add: ROWS_def COLS_def)
  with cl lc rs cs gridOk_crossGrid show ?thesis by auto
qed

subsection \<open>C3: canPlace\<close>

text \<open>
  C3 says that \<open>canPlace\<close> returns false or true for every integer pair. At row \<open>-1\<close> the
  1x1 shape is inside the two bounds that \<open>canPlace\<close> checks, and reading
  \<^verbatim>\<open>state.grid[-1][0]\<close> throws. Lemma \<open>canPlace_negative_row\<close> shows the same for every
  catalog shape at every negative row inside the two bounds.
\<close>

theorem canPlace_negative_row_counterexample:
  "SHAPES ! 0 \<in> set SHAPES \<and>
   \<not> (- 1 + int (height (SHAPES ! 0)) > 8) \<and> \<not> (0 + int (width (SHAPES ! 0)) > 8) \<and>
   canPlace initGrid (SHAPES ! 0) Null (- 1) 0 = Inl TypeError"
  by code_simp

text \<open>
  C3 as amended: for every catalog shape and every integer pair with \<open>row \<ge> 0\<close>, on a grid
  of 8 rows, \<open>canPlace\<close> returns false if \<open>row + height > 8\<close> or \<open>col + width > 8\<close> or some
  occupied cell of the shape maps to a position that holds a truthy value, and true
  otherwise. \<open>canPlace\<close> is a function of the grid and writes nothing.
\<close>

theorem canPlace_catalog:
  assumes "sh \<in> set SHAPES" and "0 \<le> row" and "length g = ROWS"
  shows "canPlace g sh colr row col =
     Inr (\<not> (row + int (height sh) > int ROWS \<or> col + int (width sh) > int COLS \<or>
             (\<exists>r c. shapeCell sh r c \<and> truthy ((g ! nat (row + int r)) (col + int c)))))"
proof -
  from catalog_shape [OF assms(1)] have ne: "sh \<noteq> []" by simp
  from assms(3) have len: "ROWS \<le> length g" by simp
  have "(\<exists>r < length sh. \<exists>c < length (hd sh).
           shapeCell sh r c \<and> truthy ((g ! nat (row + int r)) (col + int c))) \<longleftrightarrow>
        (\<exists>r c. shapeCell sh r c \<and> truthy ((g ! nat (row + int r)) (col + int c)))"
    using catalog_shapeCell [OF assms(1)] by blast
  then show ?thesis
    unfolding canPlace_char [OF ne assms(2) len] height_def width_def by auto
qed

theorem canPlace_catalog_witness:
  "(SHAPES ! 8 \<in> set SHAPES \<and> (0::int) \<le> 0 \<and> length (grid stateB) = ROWS) \<and>
   canPlace (grid stateB) (SHAPES ! 8) Null 0 5 = Inr False \<and>
   shapeCell (SHAPES ! 8) 0 1 \<and> truthy ((grid stateB ! nat (0 + int 0)) (5 + int 1)) \<and>
   canPlace (grid stateB) (SHAPES ! 8) Null 1 5 = Inr True \<and>
   canPlace (grid stateB) (SHAPES ! 8) Null 1 6 = Inr False"
proof -
  have h: "SHAPES ! 8 \<in> set SHAPES" "(0::int) \<le> 0" "length (grid stateB) = ROWS"
    by code_simp+
  have ov: "shapeCell (SHAPES ! 8) 0 1" "truthy ((grid stateB ! nat (0 + int 0)) (5 + int 1))"
    by code_simp+
  then have "\<exists>r c. shapeCell (SHAPES ! 8) r c \<and>
      truthy ((grid stateB ! nat (0 + int r)) (5 + int c))" by blast
  with canPlace_catalog [OF h, of Null 5]
  have 1: "canPlace (grid stateB) (SHAPES ! 8) Null 0 5 = Inr False" by simp
  have 2: "canPlace (grid stateB) (SHAPES ! 8) Null 1 5 = Inr True"
    "canPlace (grid stateB) (SHAPES ! 8) Null 1 6 = Inr False"
    by code_simp+
  from h ov 1 2 show ?thesis by blast
qed

subsection \<open>C4: rejected moves\<close>

text \<open>
  C4 says that \<open>tryPlaceBlock\<close> never throws, for every pair \<open>(row, col)\<close>. At the start
  of a game block 0 is there to be placed, and row \<open>-1\<close>, column 0 is a position outside
  the grid: \<open>canPlace\<close> reads \<^verbatim>\<open>state.grid[-1][0]\<close>, and \<open>tryPlaceBlock\<close> throws with it.
\<close>

theorem tryPlaceBlock_negative_row_counterexample:
  "reachable stateA \<and> gameOver stateA = False \<and>
   (0::int) < int (length (currentBlocks stateA)) \<and>
   canPlace (grid stateA) (shape (currentBlocks stateA ! nat 0))
     (color (currentBlocks stateA ! nat 0)) (- 1) 0 = Inl TypeError \<and>
   tryPlaceBlock rngZero stateA 0 (- 1) 0 = Inl TypeError"
proof -
  have "canPlace (grid stateA) (shape (currentBlocks stateA ! nat 0))
     (color (currentBlocks stateA ! nat 0)) (- 1) 0 = Inl TypeError"
    by code_simp
  moreover
  obtain e where "tryPlaceBlock rngZero stateA 0 (- 1) 0 = Inl e"
    using moveA_negative_row_eval
    by (cases "tryPlaceBlock rngZero stateA 0 (- 1) 0") simp_all
  moreover have "e = TypeError" by (cases e) simp
  moreover have "gameOver stateA = False" "(0::int) < int (length (currentBlocks stateA))"
    by (simp_all add: stateA_def)
  ultimately show ?thesis using reachable_stateA by simp
qed

text \<open>
  C4 as amended. When the game is over or the index is not one of the current blocks,
  \<open>tryPlaceBlock\<close> returns \<open>false\<close> without throwing and the whole state is as before,
  for every \<open>(row, col)\<close>. In a state that the game can reach, with the index of a
  current block and \<open>row\<close> at least 0, the same holds whenever \<open>canPlace\<close> does not return
  true for the block at \<open>(row, col)\<close>: there \<open>canPlace\<close> does not throw either.
\<close>

theorem rejected_move:
  "(gameOver s \<or> i < 0 \<or> int (length (currentBlocks s)) \<le> i \<longrightarrow>
      tryPlaceBlock rnd s i row col = Inr (False, s)) \<and>
   (reachable s \<and> 0 \<le> i \<and> i < int (length (currentBlocks s)) \<and> 0 \<le> row \<and>
    canPlace (grid s) (shape (currentBlocks s ! nat i))
      (color (currentBlocks s ! nat i)) row col \<noteq> Inr True \<longrightarrow>
      tryPlaceBlock rnd s i row col = Inr (False, s))"
proof (intro conjI impI)
  assume "gameOver s \<or> i < 0 \<or> int (length (currentBlocks s)) \<le> i"
  then show "tryPlaceBlock rnd s i row col = Inr (False, s)"
    by (auto simp: tryPlaceBlock_def Let_def)
next
  let ?b = "currentBlocks s ! nat i"
  assume a: "reachable s \<and> 0 \<le> i \<and> i < int (length (currentBlocks s)) \<and> 0 \<le> row \<and>
    canPlace (grid s) (shape ?b) (color ?b) row col \<noteq> Inr True"
  then have ok: "stateOk s" by (intro reachable_ok) simp
  then have rows: "ROWS \<le> length (grid s)" by (simp add: stateOk_def gridOk_def)
  from a have "nat i < length (currentBlocks s)" by (simp add: nat_less_iff)
  then have "?b \<in> set (currentBlocks s)" by (rule nth_mem)
  with ok have "blockOk ?b" by (simp add: stateOk_def list_all_iff)
  then have ne: "shape ?b \<noteq> []" by (rule blockOk_shape)
  from a have row: "0 \<le> row" by simp
  from canPlace_char [OF ne row rows, of "color ?b" col] obtain v where
    "canPlace (grid s) (shape ?b) (color ?b) row col = Inr v" by blast
  with a have "canPlace (grid s) (shape ?b) (color ?b) row col = Inr False" by (cases v) simp_all
  then show "tryPlaceBlock rnd s i row col = Inr (False, s)"
    by (auto simp: tryPlaceBlock_def Let_def)
qed

theorem rejected_move_witness:
  "gameOver (stateA\<lparr>gameOver := True\<rparr>) \<and>
   tryPlaceBlock rngZero (stateA\<lparr>gameOver := True\<rparr>) 0 0 0
     = Inr (False, stateA\<lparr>gameOver := True\<rparr>) \<and>
   int (length (currentBlocks stateA)) \<le> 3 \<and>
   tryPlaceBlock rngZero stateA 3 0 0 = Inr (False, stateA) \<and>
   tryPlaceBlock rngZero stateA (- 1) 0 0 = Inr (False, stateA) \<and>
   reachable stateA \<and>
   canPlace (grid stateA) (shape (currentBlocks stateA ! nat 0))
     (color (currentBlocks stateA ! nat 0)) 8 0 = Inr False \<and>
   tryPlaceBlock rngZero stateA 0 8 0 = Inr (False, stateA) \<and>
   (\<exists>s1. tryPlaceBlock rngZero stateA 0 0 0 = Inr (True, s1) \<and> reachable s1 \<and>
         canPlace (grid s1) (shape (currentBlocks s1 ! nat 0))
           (color (currentBlocks s1 ! nat 0)) 0 0 = Inr False \<and>
         tryPlaceBlock rngZero s1 0 0 0 = Inr (False, s1))"
proof -
  have over: "gameOver (stateA\<lparr>gameOver := True\<rparr>)" by simp
  have idx: "int (length (currentBlocks stateA)) \<le> 3" by (simp add: stateA_def)
  have len: "(0::int) < int (length (currentBlocks stateA))" by (simp add: stateA_def)
  have outside: "canPlace (grid stateA) (shape (currentBlocks stateA ! nat 0))
     (color (currentBlocks stateA ! nat 0)) 8 0 = Inr False"
    by code_simp
  from moveA_again_eval obtain s1 where
    acc: "tryPlaceBlock rngZero stateA 0 0 0 = Inr (True, s1)" and
    len1: "length (currentBlocks s1) = 3" and
    overlap: "canPlace (grid s1) (shape (currentBlocks s1 ! nat 0))
      (color (currentBlocks s1 ! nat 0)) 0 0 = Inr False"
    by (auto split: sum.splits)
  from reachable_stateA rngZero_valid acc have r1: "reachable s1" by (rule reachable.move)
  from rejected_move [of "stateA\<lparr>gameOver := True\<rparr>" 0 rngZero 0 0] over
  have 1: "tryPlaceBlock rngZero (stateA\<lparr>gameOver := True\<rparr>) 0 0 0
     = Inr (False, stateA\<lparr>gameOver := True\<rparr>)"
    by blast
  from rejected_move [of stateA 3 rngZero 0 0] idx
  have 2: "tryPlaceBlock rngZero stateA 3 0 0 = Inr (False, stateA)" by blast
  from rejected_move [of stateA "- 1" rngZero 0 0]
  have 3: "tryPlaceBlock rngZero stateA (- 1) 0 0 = Inr (False, stateA)" by simp
  from rejected_move [of stateA 0 rngZero 8 0] reachable_stateA len outside
  have 4: "tryPlaceBlock rngZero stateA 0 8 0 = Inr (False, stateA)" by simp
  from rejected_move [of s1 0 rngZero 0 0] r1 len1 overlap
  have 5: "tryPlaceBlock rngZero s1 0 0 0 = Inr (False, s1)" by simp
  from over idx reachable_stateA outside acc r1 overlap 1 2 3 4 5 show ?thesis by blast
qed

subsection \<open>C5: the game-over check\<close>

text \<open>
  C5. On a grid of 8 rows and blocks with non-empty shapes, \<open>canPlaceAny\<close> returns, and
  returns true exactly when some block of the list can be placed at some anchor with
  \<open>0 \<le> row \<le> 8 - height\<close> and \<open>0 \<le> col \<le> 8 - width\<close>. After an accepted move the game is
  over exactly when \<open>canPlaceAny\<close> is false for the new grid and the refilled blocks.
\<close>

theorem game_over_check:
  "(length g = ROWS \<and> (\<forall>b \<in> set bs. shape b \<noteq> []) \<longrightarrow>
      canPlaceAny g bs =
        Inr (\<exists>b \<in> set bs. \<exists>row col.
               0 \<le> row \<and> row \<le> int ROWS - int (height (shape b)) \<and>
               0 \<le> col \<and> col \<le> int COLS - int (width (shape b)) \<and>
               canPlace g (shape b) (color b) row col = Inr True)) \<and>
   (tryPlaceBlock rnd s i r0 c0 = Inr (True, s') \<longrightarrow>
      (gameOver s' \<longleftrightarrow> canPlaceAny (grid s') (currentBlocks s') = Inr False))"
proof (intro conjI impI)
  assume a: "length g = ROWS \<and> (\<forall>b \<in> set bs. shape b \<noteq> [])"
  then have len: "ROWS \<le> length g" and ne: "\<forall>b \<in> set bs. shape b \<noteq> []" by simp_all
  have col: "canPlace g (shape b) (color b) row col = canPlace g (shape b) Null row col"
    for b row col by (rule canPlace_color)
  show "canPlaceAny g bs =
        Inr (\<exists>b \<in> set bs. \<exists>row col.
               0 \<le> row \<and> row \<le> int ROWS - int (height (shape b)) \<and>
               0 \<le> col \<and> col \<le> int COLS - int (width (shape b)) \<and>
               canPlace g (shape b) (color b) row col = Inr True)"
    unfolding canPlaceAny_char [OF len ne] height_def width_def col ..
next
  assume acc: "tryPlaceBlock rnd s i r0 c0 = Inr (True, s')"
  from tryPlaceBlock_accepted [OF acc] obtain g1 lc s2 bs any where
    go: "\<not> gameOver s" and
    cl: "clearLines (s\<lparr>grid := g1, score := score s + 5\<rparr>) = Inr (lc, s2)" and
    ca: "canPlaceAny (grid (afterClear lc s2)) bs = Inr any" and
    s': "s' = (if \<not> any then (afterClear lc s2)\<lparr>currentBlocks := bs, gameOver := True\<rparr>
             else (afterClear lc s2)\<lparr>currentBlocks := bs\<rparr>)"
    by blast
  from clearLines_fields [OF cl] go have "\<not> gameOver s2" by simp
  with ca show "gameOver s' \<longleftrightarrow> canPlaceAny (grid s') (currentBlocks s') = Inr False"
    unfolding s' by (cases any) simp_all
qed

theorem game_over_check_witness:
  "length dotGrid = ROWS \<and> shape unitBlock \<noteq> [] \<and> shape bigBlock \<noteq> [] \<and>
   canPlaceAny dotGrid [unitBlock, bigBlock] = Inr True \<and>
   (\<exists>s'. tryPlaceBlock rngHigh stateG 0 0 0 = Inr (True, s') \<and> gameOver s' \<and>
         currentBlocks s' = [bigBlock, bigBlock, bigBlock] \<and>
         canPlaceAny (grid s') (currentBlocks s') = Inr False)"
proof -
  have ne: "length dotGrid = ROWS" "shape unitBlock \<noteq> []" "shape bigBlock \<noteq> []"
    by code_simp+
  then have h: "length dotGrid = ROWS \<and> (\<forall>b \<in> set [unitBlock, bigBlock]. shape b \<noteq> [])"
    by simp
  have fit: "unitBlock \<in> set [unitBlock, bigBlock]"
    "(0::int) \<le> int ROWS - int (height (shape unitBlock))"
    "(0::int) \<le> int COLS - int (width (shape unitBlock))"
    "canPlace dotGrid (shape unitBlock) (color unitBlock) 0 0 = Inr True"
    by code_simp+
  then have "\<exists>b \<in> set [unitBlock, bigBlock]. \<exists>row col.
               0 \<le> row \<and> row \<le> int ROWS - int (height (shape b)) \<and>
               0 \<le> col \<and> col \<le> int COLS - int (width (shape b)) \<and>
               canPlace dotGrid (shape b) (color b) row col = Inr True"
    by (intro bexI [of _ unitBlock] exI [of _ 0]) simp_all
  with game_over_check [of dotGrid "[unitBlock, bigBlock]"] h
  have 1: "canPlaceAny dotGrid [unitBlock, bigBlock] = Inr True" by simp
  from moveG_eval obtain s' where
    acc: "tryPlaceBlock rngHigh stateG 0 0 0 = Inr (True, s')" and over: "gameOver s'" and
    cb: "currentBlocks s' = [bigBlock, bigBlock, bigBlock]"
    by (auto split: sum.splits)
  from game_over_check [of _ _ rngHigh stateG 0 0 0 s'] acc over
  have "canPlaceAny (grid s') (currentBlocks s') = Inr False" by blast
  with ne 1 acc over cb show ?thesis by blast
qed

subsection \<open>C6: the refill\<close>

text \<open>
  C6. After an accepted move in a reachable state there are exactly 3 current blocks:
  the index placed is one of the three before the move, the blocks before it and the
  blocks after it stay, in their order, the block at the index is gone, and one new
  block, drawn by \<open>randomShape\<close> at the new score, is appended.
\<close>

theorem refill_to_three:
  assumes "reachable s" and "tryPlaceBlock rnd s i row col = Inr (True, s')"
  shows "0 \<le> i \<and> i < 3 \<and> length (currentBlocks s) = 3 \<and> length (currentBlocks s') = 3 \<and>
         (\<exists>b g'. randomShape (score s') rnd = Inr (b, g') \<and>
                  currentBlocks s' =
                    take (nat i) (currentBlocks s) @ drop (Suc (nat i)) (currentBlocks s) @ [b])"
proof -
  from reachable_ok [OF assms(1)] have len: "length (currentBlocks s) = 3"
    by (simp add: stateOk_def)
  from tryPlaceBlock_accepted [OF assms(2)] obtain g1 lc s2 bs any where
    i: "0 \<le> i" "i < int (length (currentBlocks s))" and
    cl: "clearLines (s\<lparr>grid := g1, score := score s + 5\<rparr>) = Inr (lc, s2)" and
    rf: "refill (score (afterClear lc s2)) rnd
           (splice1 (currentBlocks (afterClear lc s2)) (nat i)) = Inr bs" and
    s': "s' = (if \<not> any then (afterClear lc s2)\<lparr>currentBlocks := bs, gameOver := True\<rparr>
             else (afterClear lc s2)\<lparr>currentBlocks := bs\<rparr>)"
    by blast
  from clearLines_fields [OF cl] have cb: "currentBlocks s2 = currentBlocks s" by simp
  from s' have sc: "score s' = score s2" and cbs: "currentBlocks s' = bs" by simp_all
  from rf cb have rf': "refill (score s') rnd (splice1 (currentBlocks s) (nat i)) = Inr bs"
    by (simp add: sc)
  from i len have two: "length (splice1 (currentBlocks s) (nat i)) = 2"
    by (simp add: length_splice1)
  from refill_two [OF rf' two] obtain b g' where
    rs: "randomShape (score s') rnd = Inr (b, g')" and
    bs: "bs = splice1 (currentBlocks s) (nat i) @ [b]"
    by blast
  from bs have bs': "currentBlocks s' =
      take (nat i) (currentBlocks s) @ drop (Suc (nat i)) (currentBlocks s) @ [b]"
    by (simp add: cbs splice1_def)
  from bs two have "length (currentBlocks s') = 3" by (simp add: cbs)
  with i len rs bs' show ?thesis by auto
qed

theorem refill_to_three_witness:
  "reachable stateM \<and> currentBlocks stateM = [unitBlock, barBlock, hookBlock] \<and>
   (\<exists>s'. tryPlaceBlock rngHigh stateM 1 0 0 = Inr (True, s') \<and>
         length (currentBlocks s') = 3 \<and>
         randomShape (score s') rngHigh = Inr (bigBlock, rngHigh) \<and>
         currentBlocks s' = [unitBlock, hookBlock, bigBlock])"
proof -
  from moveM_eval obtain s' where
    acc: "tryPlaceBlock rngHigh stateM 1 0 0 = Inr (True, s')" and sc: "score s' = 5"
    by (auto split: sum.splits)
  have new: "randomShape (score s') rngHigh = Inr (bigBlock, rngHigh)"
    unfolding sc by (rule randomShape_rngHigh) simp
  from refill_to_three [OF reachable_stateM acc] obtain b g' where
    len: "length (currentBlocks s') = 3" and
    rs: "randomShape (score s') rngHigh = Inr (b, g')" and
    cb: "currentBlocks s' =
      take (nat 1) (currentBlocks stateM) @ drop (Suc (nat 1)) (currentBlocks stateM) @ [b]"
    by blast
  from rs new have "b = bigBlock" by simp
  with cb have "currentBlocks s' = [unitBlock, hookBlock, bigBlock]" by (simp add: stateM_def)
  moreover have "currentBlocks stateM = [unitBlock, barBlock, hookBlock]"
    by (simp add: stateM_def)
  ultimately show ?thesis using reachable_stateM acc len new by blast
qed

subsection \<open>C7: a move that clears nothing\<close>

text \<open>
  C7. In every move accepted by \<open>tryPlaceBlock\<close>, when the \<open>clearLines\<close> step clears no
  line (count 0), the move ends with combo 0 and streak 0, whatever the streak was.
\<close>

theorem no_clear_resets:
  assumes acc: "tryPlaceBlock rnd s i row col = Inr (True, s')"
  shows "\<exists>g1 lc s2.
     placeBlock (grid s) (shape (currentBlocks s ! nat i))
       (color (currentBlocks s ! nat i)) row col = Inr g1 \<and>
     clearLines (s\<lparr>grid := g1, score := score s + 5\<rparr>) = Inr (lc, s2) \<and>
     (count lc = 0 \<longrightarrow> combo s' = 0 \<and> streak s' = 0)"
proof -
  from tryPlaceBlock_accepted [OF acc] obtain g1 lc s2 bs any where
    pb: "placeBlock (grid s) (shape (currentBlocks s ! nat i))
           (color (currentBlocks s ! nat i)) row col = Inr g1" and
    cl: "clearLines (s\<lparr>grid := g1, score := score s + 5\<rparr>) = Inr (lc, s2)" and
    s': "s' = (if \<not> any then (afterClear lc s2)\<lparr>currentBlocks := bs, gameOver := True\<rparr>
             else (afterClear lc s2)\<lparr>currentBlocks := bs\<rparr>)"
    by blast
  have "combo s' = 0 \<and> streak s' = 0" if "count lc = 0"
  proof -
    from that have "afterClear lc s2 = noClearThisMove s2" by (simp add: afterClear_def)
    then show ?thesis unfolding s' by (simp add: noClearThisMove_def)
  qed
  with pb cl show ?thesis by auto
qed

theorem no_clear_resets_witness:
  "\<exists>s' g1 lc s2.
     tryPlaceBlock rngZero stateB 0 1 0 = Inr (True, s') \<and>
     placeBlock (grid stateB) (shape (currentBlocks stateB ! nat 0))
       (color (currentBlocks stateB ! nat 0)) 1 0 = Inr g1 \<and>
     clearLines (stateB\<lparr>grid := g1, score := score stateB + 5\<rparr>) = Inr (lc, s2) \<and>
     count lc = 0 \<and> streak stateB = 2 \<and> combo stateB = 1 \<and>
     combo s' = 0 \<and> streak s' = 0"
proof -
  from moveB_noclear_eval obtain s' where
    acc: "tryPlaceBlock rngZero stateB 0 1 0 = Inr (True, s')"
    by (auto split: sum.splits)
  from no_clear_resets [OF acc] obtain g1 lc s2 where
    pb: "placeBlock (grid stateB) (shape (currentBlocks stateB ! nat 0))
           (color (currentBlocks stateB ! nat 0)) 1 0 = Inr g1" and
    cl: "clearLines (stateB\<lparr>grid := g1, score := score stateB + 5\<rparr>) = Inr (lc, s2)" and
    reset: "count lc = 0 \<longrightarrow> combo s' = 0 \<and> streak s' = 0"
    by auto
  from placeB_noclear_eval pb cl have cnt: "count lc = 0" by simp
  have "streak stateB = 2" "combo stateB = 1" by (simp_all add: stateB_def)
  with reset cnt acc pb cl show ?thesis by auto
qed

subsection \<open>C8: the catalog and its large subset\<close>

text \<open>
  C8 says that the catalog has 23 shapes and that the large subset has 13 entries and
  consists of every catalog shape with 4 or more occupied cells. The 2x2 square (index 3)
  has 4 occupied cells and is not in \<open>LARGE_SHAPE_INDICES\<close>.
\<close>

theorem large_subset_counterexample:
  "4 \<le> cellCount (SHAPES ! 3) \<and> 3 < length SHAPES \<and> 3 \<notin> set LARGE_SHAPE_INDICES"
  by code_simp

text \<open>
  C8 as amended: the catalog has exactly 23 shapes; the large subset has exactly 13
  entries, all different, and every one of them is the index of a catalog shape with 4 or
  more occupied cells.
\<close>

theorem catalog_and_large_subset:
  "length SHAPES = 23 \<and> length LARGE_SHAPE_INDICES = 13 \<and> distinct LARGE_SHAPE_INDICES \<and>
   (\<forall>i \<in> set LARGE_SHAPE_INDICES. i < length SHAPES \<and> 4 \<le> cellCount (SHAPES ! i))"
  by code_simp

theorem catalog_and_large_subset_witness:
  "22 \<in> set LARGE_SHAPE_INDICES \<and> 22 < length SHAPES \<and> 4 \<le> cellCount (SHAPES ! 22)"
proof -
  have mem: "22 \<in> set LARGE_SHAPE_INDICES" by (simp add: LARGE_SHAPE_INDICES_def)
  with catalog_and_large_subset show ?thesis by blast
qed

subsection \<open>C9: difficulty scaling\<close>




subsection \<open>C10: no full line between moves\<close>

text \<open>
  C10. After an accepted call of \<open>tryPlaceBlock\<close> no row and no column of the grid is fully
  occupied.
\<close>

theorem no_full_line_after_move:
  assumes "tryPlaceBlock rnd s i row col = Inr (True, s')"
  shows "\<not> (\<exists>r < ROWS. \<forall>c < COLS. occupied (grid s') r c) \<and>
         \<not> (\<exists>c < COLS. \<forall>r < ROWS. occupied (grid s') r c)"
  using assms by (rule accepted_no_full_line)

theorem no_full_line_after_move_witness:
  "\<exists>s'. tryPlaceBlock rngZero stateB 0 0 7 = Inr (True, s') \<and>
     \<not> (\<exists>r < ROWS. \<forall>c < COLS. occupied (grid s') r c) \<and>
     \<not> (\<exists>c < COLS. \<forall>r < ROWS. occupied (grid s') r c)"
proof -
  from moveB_eval obtain s' where acc: "tryPlaceBlock rngZero stateB 0 0 7 = Inr (True, s')"
    by (auto split: sum.splits)
  from no_full_line_after_move [OF acc] acc show ?thesis by blast
qed

end
